theory Spec2Isabelle
  imports Complex_Main
begin

section \<open>Signal analysis pipeline of \<open>services/analysisService.ts\<close>\<close>

text \<open>
  Numbers of the source are IEEE doubles, and the cells of its typed arrays are single
  precision. The normalizer is modelled with this rounding, and so are the transform and
  the magnitude spectrum in \<open>fft_with\<close> and \<open>getMagnitudeSpectrum_with\<close>. The frame
  analysis (energy, spectrum, descriptors) and the aggregation compute over exact reals;
  quotients whose divisor can be zero are values of \<open>jsnum\<close>. Samples are assumed to be
  finite numbers.
\<close>

subsection \<open>IEEE rounding\<close>

text \<open>
  Storing a number into a \<open>Float32Array\<close> rounds it to single precision, and an arithmetic
  operation on numbers rounds its exact result to double precision; both round to the
  nearest representable number, ties to the even significand. \<open>round_fp p emin x\<close> is
  the nearest number with \<open>p\<close> significant bits and least exponent \<open>emin\<close> (below
  \<open>2 ^ emin\<close> the spacing stays that of the subnormal numbers). Overflow to an infinity
  is not part of it: the numbers rounded here stay far below the largest finite number.
\<close>

definition rne :: "real \<Rightarrow> int" where
  "rne y =
     (let f = \<lfloor>y\<rfloor>
      in if y - of_int f < 1 / 2 then f
         else if 1 / 2 < y - of_int f then f + 1
         else if even f then f else f + 1)"

definition fexp :: "nat \<Rightarrow> int \<Rightarrow> real \<Rightarrow> int" where
  "fexp p emin x = max \<lfloor>log 2 \<bar>x\<bar>\<rfloor> emin - (int p - 1)"

definition round_fp :: "nat \<Rightarrow> int \<Rightarrow> real \<Rightarrow> real" where
  "round_fp p emin x =
     (if x = 0 then 0
      else of_int (rne (x / 2 powi fexp p emin x)) * 2 powi fexp p emin x)"

definition fl64 :: "real \<Rightarrow> real" where
  "fl64 = round_fp 53 (- 1022)"

definition fround :: "real \<Rightarrow> real" where
  "fround = round_fp 24 (- 126)"

text \<open>The finite values a \<open>Float32Array\<close> cell can hold.\<close>

definition is_float32 :: "real \<Rightarrow> bool" where
  "is_float32 x \<longleftrightarrow> fround x = x \<and> \<bar>x\<bar> < 2 ^ 128"

subsection \<open>Normalizer\<close>

text \<open>
  The peak scan compares and copies and so is exact. The scalar is a quotient of doubles
  (the literal \<open>0.95\<close> is itself the nearest double), each product is a double, and the
  store into the output array rounds it to single precision.
\<close>

definition peak_step :: "real \<Rightarrow> real \<Rightarrow> real" where
  "peak_step x maxPeak = (if \<bar>x\<bar> > maxPeak then \<bar>x\<bar> else maxPeak)"

definition maxPeak_of :: "real list \<Rightarrow> real" where
  "maxPeak_of input = fold peak_step input 0"

definition normalizeBuffer :: "real list \<Rightarrow> real list" where
  "normalizeBuffer input =
     (let maxPeak = maxPeak_of input;
          scalar = (if maxPeak > 0 then fl64 (fl64 0.95 / maxPeak) else 1)
      in map (\<lambda>x. fround (fl64 (x * scalar))) input)"

subsection \<open>Digital silence scan\<close>

text \<open>The state is \<open>(zeroRunCount, maxZeroRun)\<close>; one equation per loop iteration.\<close>

fun zero_run_scan :: "real list \<Rightarrow> nat \<times> nat \<Rightarrow> nat \<times> nat" where
  "zero_run_scan [] st = st"
| "zero_run_scan (x # xs) (zeroRunCount, maxZeroRun) =
     (if x = 0 then zero_run_scan xs (zeroRunCount + 1, maxZeroRun)
      else zero_run_scan xs (0, if zeroRunCount > maxZeroRun then zeroRunCount else maxZeroRun))"

definition maxZeroRun_of :: "real list \<Rightarrow> nat" where
  "maxZeroRun_of data = snd (zero_run_scan data (0, 0))"

definition hasDigitalSilence_of :: "real list \<Rightarrow> bool" where
  "hasDigitalSilence_of data = (maxZeroRun_of data > 1000)"

subsection \<open>Radix-2 transform and magnitude spectrum\<close>

text \<open>
  \<open>fft\<close> overwrites its two argument arrays; the model returns their final contents.
  \<open>half\<close> is \<open>n / 2\<close>, an integer for every length the recursion reaches from a
  power of two (the only lengths the program uses; the frame length is 2048). For such
  lengths the two writes of the butterfly loop, at \<open>k\<close> and at \<open>k + half\<close>, fill the
  whole array.
\<close>

definition evens :: "real list \<Rightarrow> nat \<Rightarrow> real list" where
  "evens xs half = map (\<lambda>i. xs ! (2 * i)) [0..<half]"

definition odds :: "real list \<Rightarrow> nat \<Rightarrow> real list" where
  "odds xs half = map (\<lambda>i. xs ! (2 * i + 1)) [0..<half]"

definition angle :: "nat \<Rightarrow> nat \<Rightarrow> real" where
  "angle n k = - 2 * pi * real k / real n"

definition termReal :: "nat \<Rightarrow> real list \<Rightarrow> real list \<Rightarrow> nat \<Rightarrow> real" where
  "termReal n oddReal oddImag k = cos (angle n k) * oddReal ! k - sin (angle n k) * oddImag ! k"

definition termImag :: "nat \<Rightarrow> real list \<Rightarrow> real list \<Rightarrow> nat \<Rightarrow> real" where
  "termImag n oddReal oddImag k = cos (angle n k) * oddImag ! k + sin (angle n k) * oddReal ! k"

definition butterfly ::
  "nat \<Rightarrow> nat \<Rightarrow> real list \<times> real list \<Rightarrow> real list \<times> real list \<Rightarrow> real list \<times> real list
     \<Rightarrow> real list \<times> real list" where
  "butterfly n half inp ev od =
     (case (inp, ev, od) of ((inputReal, inputImag), (evenReal, evenImag), (oddReal, oddImag)) \<Rightarrow>
        (map (\<lambda>k. evenReal ! k + termReal n oddReal oddImag k) [0..<half]
           @ map (\<lambda>k. evenReal ! k - termReal n oddReal oddImag k) [0..<half]
           @ drop (2 * half) inputReal,
         map (\<lambda>k. evenImag ! k + termImag n oddReal oddImag k) [0..<half]
           @ map (\<lambda>k. evenImag ! k - termImag n oddReal oddImag k) [0..<half]
           @ drop (2 * half) inputImag))"

function fft :: "real list \<times> real list \<Rightarrow> real list \<times> real list" where
  "fft (inputReal, inputImag) =
     (let n = length inputReal in
      if n \<le> 1 then (inputReal, inputImag)
      else
        let half = n div 2;
            ev = fft (evens inputReal half, evens inputImag half);
            od = fft (odds inputReal half, odds inputImag half)
        in butterfly n half (inputReal, inputImag) ev od)"
  by pat_completeness auto
termination
  by (relation "measure (\<lambda>(inputReal, inputImag). length inputReal)")
    (auto simp: evens_def odds_def)

declare fft.simps [simp del]

text \<open>
  The same routine with its arithmetic made explicit: every store into a \<open>Float32Array\<close>
  goes through \<open>to_f32\<close>, every result of an operation on numbers through \<open>to_f64\<close>, and
  \<open>Math.PI\<close>, \<open>Math.cos\<close>, \<open>Math.sin\<close> and \<open>Math.sqrt\<close> are \<open>m_pi\<close>, \<open>m_cos\<close>,
  \<open>m_sin\<close> and \<open>m_sqrt\<close>. With \<open>exact_arith\<close> nothing is rounded, and
  \<open>fft_with exact_arith\<close> is \<open>fft\<close>. With \<open>ieee_arith\<close> cells are single precision and
  operations double precision; the square root is correctly rounded; the language leaves
  the accuracy of \<open>Math.cos\<close> and \<open>Math.sin\<close> to the implementation, and they are taken
  here to be correctly rounded (they return 1 and 0 at 0 in every implementation).
\<close>

record arith =
  to_f32 :: "real \<Rightarrow> real"
  to_f64 :: "real \<Rightarrow> real"
  m_pi :: real
  m_cos :: "real \<Rightarrow> real"
  m_sin :: "real \<Rightarrow> real"
  m_sqrt :: "real \<Rightarrow> real"

definition exact_arith :: arith where
  "exact_arith = \<lparr>to_f32 = (\<lambda>x. x), to_f64 = (\<lambda>x. x), m_pi = pi, m_cos = cos, m_sin = sin,
     m_sqrt = sqrt\<rparr>"

definition ieee_arith :: arith where
  "ieee_arith = \<lparr>to_f32 = fround, to_f64 = fl64, m_pi = fl64 pi,
     m_cos = (\<lambda>x. fl64 (cos x)), m_sin = (\<lambda>x. fl64 (sin x)),
     m_sqrt = (\<lambda>x. fl64 (sqrt x))\<rparr>"

definition evens_with :: "arith \<Rightarrow> real list \<Rightarrow> nat \<Rightarrow> real list" where
  "evens_with ar xs half = map (\<lambda>i. to_f32 ar (xs ! (2 * i))) [0..<half]"

definition odds_with :: "arith \<Rightarrow> real list \<Rightarrow> nat \<Rightarrow> real list" where
  "odds_with ar xs half = map (\<lambda>i. to_f32 ar (xs ! (2 * i + 1))) [0..<half]"

definition angle_with :: "arith \<Rightarrow> nat \<Rightarrow> nat \<Rightarrow> real" where
  "angle_with ar n k = to_f64 ar (to_f64 ar (to_f64 ar (- 2 * m_pi ar) * real k) / real n)"

definition termReal_with :: "arith \<Rightarrow> nat \<Rightarrow> real list \<Rightarrow> real list \<Rightarrow> nat \<Rightarrow> real" where
  "termReal_with ar n oddReal oddImag k =
     (let cwReal = m_cos ar (angle_with ar n k);
          cwImag = m_sin ar (angle_with ar n k)
      in to_f64 ar (to_f64 ar (cwReal * oddReal ! k) - to_f64 ar (cwImag * oddImag ! k)))"

definition termImag_with :: "arith \<Rightarrow> nat \<Rightarrow> real list \<Rightarrow> real list \<Rightarrow> nat \<Rightarrow> real" where
  "termImag_with ar n oddReal oddImag k =
     (let cwReal = m_cos ar (angle_with ar n k);
          cwImag = m_sin ar (angle_with ar n k)
      in to_f64 ar (to_f64 ar (cwReal * oddImag ! k) + to_f64 ar (cwImag * oddReal ! k)))"

definition butterfly_with ::
  "arith \<Rightarrow> nat \<Rightarrow> nat \<Rightarrow> real list \<times> real list \<Rightarrow> real list \<times> real list
     \<Rightarrow> real list \<times> real list \<Rightarrow> real list \<times> real list" where
  "butterfly_with ar n half inp ev od =
     (case (inp, ev, od) of ((inputReal, inputImag), (evenReal, evenImag), (oddReal, oddImag)) \<Rightarrow>
        (map (\<lambda>k. to_f32 ar (to_f64 ar (evenReal ! k + termReal_with ar n oddReal oddImag k)))
             [0..<half]
           @ map (\<lambda>k. to_f32 ar (to_f64 ar (evenReal ! k - termReal_with ar n oddReal oddImag k)))
               [0..<half]
           @ drop (2 * half) inputReal,
         map (\<lambda>k. to_f32 ar (to_f64 ar (evenImag ! k + termImag_with ar n oddReal oddImag k)))
             [0..<half]
           @ map (\<lambda>k. to_f32 ar (to_f64 ar (evenImag ! k - termImag_with ar n oddReal oddImag k)))
               [0..<half]
           @ drop (2 * half) inputImag))"

function fft_with :: "arith \<Rightarrow> real list \<times> real list \<Rightarrow> real list \<times> real list" where
  "fft_with ar (inputReal, inputImag) =
     (let n = length inputReal in
      if n \<le> 1 then (inputReal, inputImag)
      else
        let half = n div 2;
            ev = fft_with ar (evens_with ar inputReal half, evens_with ar inputImag half);
            od = fft_with ar (odds_with ar inputReal half, odds_with ar inputImag half)
        in butterfly_with ar n half (inputReal, inputImag) ev od)"
  by pat_completeness auto
termination
  by (relation "measure (\<lambda>(ar, inputReal, inputImag). length inputReal)")
    (auto simp: evens_with_def odds_with_def)

declare fft_with.simps [simp del]

text \<open>
  The Hanning window divides by \<open>n - 1\<close>. For a one-element array the source computes
  \<open>0 / 0\<close>; the program windows frames of 2048 samples only, and a one-element array has
  an empty magnitude spectrum, so that case is not given a value of its own here.
\<close>

definition hanning_window :: "real list \<Rightarrow> real list" where
  "hanning_window re =
     (let n = length re
      in map (\<lambda>i. re ! i * 0.5 * (1 - cos ((2 * pi * real i) / (real n - 1)))) [0..<n])"

definition magnitudes :: "nat \<Rightarrow> real list \<times> real list \<Rightarrow> real list" where
  "magnitudes n out =
     (case out of (re, im) \<Rightarrow> map (\<lambda>i. sqrt (re ! i * re ! i + im ! i * im ! i)) [0..<n div 2])"

definition getMagnitudeSpectrum :: "real list \<Rightarrow> real list" where
  "getMagnitudeSpectrum re =
     (let n = length re;
          imag = replicate n 0
      in magnitudes n (fft (hanning_window re, imag)))"

text \<open>The magnitude spectrum with its arithmetic made explicit, as for \<open>fft_with\<close>.\<close>

definition hanning_window_with :: "arith \<Rightarrow> real list \<Rightarrow> real list" where
  "hanning_window_with ar re =
     (let n = length re
      in map (\<lambda>i. to_f32 ar
                  (to_f64 ar
                     (to_f64 ar (re ! i * 0.5)
                      * to_f64 ar
                          (1 - m_cos ar
                                 (to_f64 ar
                                    (to_f64 ar (to_f64 ar (2 * m_pi ar) * real i)
                                     / (real n - 1)))))))
           [0..<n])"

definition magnitudes_with :: "arith \<Rightarrow> nat \<Rightarrow> real list \<times> real list \<Rightarrow> real list" where
  "magnitudes_with ar n out =
     (case out of (re, im) \<Rightarrow>
        map (\<lambda>i. to_f32 ar
                 (m_sqrt ar (to_f64 ar (to_f64 ar (re ! i * re ! i) + to_f64 ar (im ! i * im ! i)))))
          [0..<n div 2])"

definition getMagnitudeSpectrum_with :: "arith \<Rightarrow> real list \<Rightarrow> real list" where
  "getMagnitudeSpectrum_with ar re =
     (let n = length re;
          imag = replicate n 0
      in magnitudes_with ar n (fft_with ar (hanning_window_with ar re, imag)))"

subsection \<open>Per-frame features\<close>

definition FFT_SIZE :: nat where
  "FFT_SIZE = 2048"

definition HOP_SIZE :: nat where
  "HOP_SIZE = 1024"

record frame_acc =
  frameRolloffs :: "real list"
  frameCentroids :: "real list"
  frameRMS :: "real list"
  frameFlatness :: "real list"
  minGlobalRMS :: real

definition init_acc :: frame_acc where
  "init_acc = \<lparr>frameRolloffs = [], frameCentroids = [], frameRMS = [], frameFlatness = [],
     minGlobalRMS = 1\<rparr>"

text \<open>\<open>slice\<close> is the array method: the end index is clamped to the length.\<close>

definition slice :: "real list \<Rightarrow> nat \<Rightarrow> nat \<Rightarrow> real list" where
  "slice xs b e = take (e - b) (drop b xs)"

definition rms_of :: "real list \<Rightarrow> real" where
  "rms_of chunk = (let sumSq = (\<Sum>s\<leftarrow>chunk. s * s) in sqrt (sumSq / real FFT_SIZE))"

definition rms_update :: "real \<Rightarrow> frame_acc \<Rightarrow> frame_acc" where
  "rms_update rms st =
     (let st1 = st\<lparr>frameRMS := frameRMS st @ [rms]\<rparr>
      in if rms > 0.00001 \<and> rms < minGlobalRMS st1 then st1\<lparr>minGlobalRMS := rms\<rparr> else st1)"

text \<open>
  The rolloff loop with its \<open>break\<close>: the arguments are the bins not yet visited, the
  threshold, the index \<open>j\<close> and \<open>accumEnergy\<close>. When the loop ends without a break,
  \<open>rolloffBin\<close> keeps its initial value 0.
\<close>

fun rolloff_scan :: "real list \<Rightarrow> real \<Rightarrow> nat \<Rightarrow> real \<Rightarrow> nat" where
  "rolloff_scan [] thresholdEnergy j accumEnergy = 0"
| "rolloff_scan (m # ms) thresholdEnergy j accumEnergy =
     (let accumEnergy' = accumEnergy + m
      in if accumEnergy' \<ge> thresholdEnergy then j
         else rolloff_scan ms thresholdEnergy (j + 1) accumEnergy')"

definition rolloff_of :: "real \<Rightarrow> real list \<Rightarrow> real" where
  "rolloff_of BIN_WIDTH spectrum =
     (let totalEnergy = sum_list spectrum;
          thresholdEnergy = 0.85 * totalEnergy;
          rolloffBin = rolloff_scan spectrum thresholdEnergy 0 0
      in real rolloffBin * BIN_WIDTH)"

definition centroid_of :: "real \<Rightarrow> real list \<Rightarrow> real" where
  "centroid_of BIN_WIDTH spectrum =
     (let totalEnergy = sum_list spectrum;
          weightedSum = (\<Sum>j\<leftarrow>[0..<length spectrum]. real j * spectrum ! j)
      in (weightedSum / (totalEnergy + 0.0001)) * BIN_WIDTH)"

text \<open>
  The spectrum has 1024 bins whenever this is computed, so the two divisions by
  \<open>spectrum.length\<close> are divisions by a positive number.
\<close>

definition flatness_of :: "real list \<Rightarrow> real" where
  "flatness_of spectrum =
     (let sumMag = (\<Sum>m\<leftarrow>spectrum. m + 1 / 10 ^ 10);
          logSum = (\<Sum>m\<leftarrow>spectrum. ln (m + 1 / 10 ^ 10));
          geoMean = exp (logSum / real (length spectrum));
          ariMean = sumMag / real (length spectrum)
      in geoMean / (ariMean + 1 / 10 ^ 10))"

definition spectral_update :: "real \<Rightarrow> real list \<Rightarrow> frame_acc \<Rightarrow> frame_acc" where
  "spectral_update BIN_WIDTH spectrum st =
     st\<lparr>frameRolloffs := frameRolloffs st @ [rolloff_of BIN_WIDTH spectrum],
        frameCentroids := frameCentroids st @ [centroid_of BIN_WIDTH spectrum],
        frameFlatness := frameFlatness st @ [flatness_of spectrum]\<rparr>"

definition process_frame :: "real \<Rightarrow> real list \<Rightarrow> frame_acc \<Rightarrow> frame_acc" where
  "process_frame BIN_WIDTH chunk st =
     (let rms = rms_of chunk;
          st' = rms_update rms st
      in if rms > 0.01 then spectral_update BIN_WIDTH (getMagnitudeSpectrum chunk) st'
         else st')"

function frame_loop :: "real list \<Rightarrow> real \<Rightarrow> nat \<Rightarrow> frame_acc \<Rightarrow> frame_acc" where
  "frame_loop data BIN_WIDTH i st =
     (if int i < int (length data) - int FFT_SIZE
      then frame_loop data BIN_WIDTH (i + HOP_SIZE)
             (process_frame BIN_WIDTH (slice data i (i + FFT_SIZE)) st)
      else st)"
  by pat_completeness auto
termination
  by (relation "measure (\<lambda>(data, BIN_WIDTH, i, st). length data - i)")
    (auto simp: HOP_SIZE_def)

declare frame_loop.simps [simp del]

subsection \<open>Numbers that need not be finite\<close>

text \<open>
  A quotient of two numbers is not a number when both are zero, and infinite when only
  the divisor is. \<open>jsnum\<close> adds these values to the reals, with the arithmetic the
  language gives them. Zero has no sign here: a zero divisor is \<open>+0\<close>, which is the sign
  of every divisor of the program (a count, or a mean of non-negative numbers).
\<close>

datatype jsnum = Fin real | PosInf | NegInf | NaN

definition js_div :: "real \<Rightarrow> real \<Rightarrow> jsnum" where
  "js_div x y =
     (if y \<noteq> 0 then Fin (x / y) else if x = 0 then NaN else if x > 0 then PosInf else NegInf)"

fun js_neg :: "jsnum \<Rightarrow> jsnum" where
  "js_neg (Fin x) = Fin (- x)"
| "js_neg PosInf = NegInf"
| "js_neg NegInf = PosInf"
| "js_neg NaN = NaN"

fun js_add :: "jsnum \<Rightarrow> jsnum \<Rightarrow> jsnum" where
  "js_add (Fin x) (Fin y) = Fin (x + y)"
| "js_add NaN b = NaN"
| "js_add a NaN = NaN"
| "js_add PosInf NegInf = NaN"
| "js_add NegInf PosInf = NaN"
| "js_add PosInf b = PosInf"
| "js_add a PosInf = PosInf"
| "js_add NegInf b = NegInf"
| "js_add a NegInf = NegInf"

definition js_sub :: "jsnum \<Rightarrow> jsnum \<Rightarrow> jsnum" where
  "js_sub a b = js_add a (js_neg b)"

text \<open>The sign of a product or quotient with an infinity; \<open>0\<close> stands for no number.\<close>

definition inf_signed :: "real \<Rightarrow> jsnum" where
  "inf_signed s = (if s > 0 then PosInf else if s < 0 then NegInf else NaN)"

fun js_mul :: "jsnum \<Rightarrow> jsnum \<Rightarrow> jsnum" where
  "js_mul (Fin x) (Fin y) = Fin (x * y)"
| "js_mul NaN b = NaN"
| "js_mul a NaN = NaN"
| "js_mul PosInf (Fin y) = inf_signed y"
| "js_mul NegInf (Fin y) = inf_signed (- y)"
| "js_mul (Fin x) PosInf = inf_signed x"
| "js_mul (Fin x) NegInf = inf_signed (- x)"
| "js_mul PosInf PosInf = PosInf"
| "js_mul NegInf NegInf = PosInf"
| "js_mul PosInf NegInf = NegInf"
| "js_mul NegInf PosInf = NegInf"

fun js_divide :: "jsnum \<Rightarrow> jsnum \<Rightarrow> jsnum" where
  "js_divide (Fin x) (Fin y) = js_div x y"
| "js_divide NaN b = NaN"
| "js_divide a NaN = NaN"
| "js_divide (Fin x) b = Fin 0"
| "js_divide PosInf (Fin y) = (if y \<ge> 0 then PosInf else NegInf)"
| "js_divide NegInf (Fin y) = (if y \<ge> 0 then NegInf else PosInf)"
| "js_divide a b = NaN"

fun js_sqrt :: "jsnum \<Rightarrow> jsnum" where
  "js_sqrt (Fin x) = (if x \<ge> 0 then Fin (sqrt x) else NaN)"
| "js_sqrt PosInf = PosInf"
| "js_sqrt NegInf = NaN"
| "js_sqrt NaN = NaN"

fun js_lt :: "jsnum \<Rightarrow> real \<Rightarrow> bool" where
  "js_lt (Fin x) c = (x < c)"
| "js_lt NegInf c = True"
| "js_lt PosInf c = False"
| "js_lt NaN c = False"

subsection \<open>Aggregation\<close>

text \<open>
  \<open>or1 n\<close> is \<open>n || 1\<close>. The sum of an array of finite numbers is finite; the quotient by
  the count is the language's division, so that an empty array without the \<open>|| 1\<close> would
  give \<open>0 / 0\<close>.
\<close>

definition or1 :: "nat \<Rightarrow> nat" where
  "or1 n = (if n = 0 then 1 else n)"

definition mean_or1 :: "real list \<Rightarrow> jsnum" where
  "mean_or1 xs = js_divide (Fin (sum_list xs)) (Fin (real (or1 (length xs))))"

definition var_or1 :: "real list \<Rightarrow> jsnum \<Rightarrow> jsnum" where
  "var_or1 xs avg =
     js_divide
       (fold (\<lambda>b a. js_add a (js_mul (js_sub (Fin b) avg) (js_sub (Fin b) avg))) xs (Fin 0))
       (Fin (real (or1 (length xs))))"

definition noiseFloorDb_of :: "frame_acc \<Rightarrow> real" where
  "noiseFloorDb_of st = 20 * log 10 (minGlobalRMS st + 1 / 10 ^ 9)"

definition avgRolloff_of :: "frame_acc \<Rightarrow> jsnum" where
  "avgRolloff_of st = mean_or1 (frameRolloffs st)"

definition stdRolloff_of :: "frame_acc \<Rightarrow> jsnum" where
  "stdRolloff_of st = js_sqrt (var_or1 (frameRolloffs st) (avgRolloff_of st))"

definition avgCentroid_of :: "frame_acc \<Rightarrow> jsnum" where
  "avgCentroid_of st = mean_or1 (frameCentroids st)"

definition rmsCV_of :: "frame_acc \<Rightarrow> jsnum" where
  "rmsCV_of st =
     (let rmsMean = mean_or1 (frameRMS st);
          rmsVar = var_or1 (frameRMS st) rmsMean
      in js_divide (js_sqrt rmsVar) rmsMean)"

subsection \<open>Classification scoring\<close>

record scoring =
  score :: int
  explanations :: "string list"
  primaryObs :: string

definition init_scoring :: scoring where
  "init_scoring = \<lparr>score = 0, explanations = [], primaryObs = []\<rparr>"

definition factor1 :: "jsnum \<Rightarrow> real \<Rightarrow> bool \<Rightarrow> scoring \<Rightarrow> scoring" where
  "factor1 avgRolloff noiseFloorDb hasDigitalSilence sc =
     (if js_lt avgRolloff 17000 then
        (if noiseFloorDb < - 75 \<or> hasDigitalSilence then
           sc\<lparr>score := score sc + 40,
              explanations := explanations sc
                @ [''Signal is bandwidth-limited yet unnaturally clean.''],
              primaryObs := ''Bandwidth limited with synthetic silence.''\<rparr>
         else
           sc\<lparr>score := score sc - 30,
              explanations := explanations sc
                @ [''Bandwidth limitation likely due to hardware, matched with natural noise floor.'']\<rparr>)
      else
        sc\<lparr>score := score sc - 10,
           explanations := explanations sc @ [''Full spectral bandwidth detected.'']\<rparr>)"

definition factor2 :: "jsnum \<Rightarrow> scoring \<Rightarrow> scoring" where
  "factor2 stdRolloff sc =
     (if js_lt stdRolloff 200 then
        sc\<lparr>score := score sc + 35,
           explanations := explanations sc @ [''Spectral rolloff point is mathematically rigid.''],
           primaryObs := (if primaryObs sc = [] then ''Fixed-frequency low-pass filtering detected.''
                          else primaryObs sc)\<rparr>
      else
        sc\<lparr>score := score sc - 20,
           explanations := explanations sc @ [''Natural spectral variation observed over time.'']\<rparr>)"

definition factor3 :: "bool \<Rightarrow> scoring \<Rightarrow> scoring" where
  "factor3 hasDigitalSilence sc =
     (if hasDigitalSilence then
        sc\<lparr>score := score sc + 25,
           explanations := explanations sc
             @ [''Contains segments of absolute digital silence (Zero-fill).'']\<rparr>
      else sc)"

definition factor4 :: "jsnum \<Rightarrow> scoring \<Rightarrow> scoring" where
  "factor4 rmsCV sc =
     (if js_lt rmsCV 0.4 then
        sc\<lparr>score := score sc + 15,
           explanations := explanations sc
             @ [''Low dynamic range consistent with normalized synthesis.'']\<rparr>
      else sc)"

definition scoring_of :: "jsnum \<Rightarrow> jsnum \<Rightarrow> real \<Rightarrow> bool \<Rightarrow> jsnum \<Rightarrow> scoring" where
  "scoring_of avgRolloff stdRolloff noiseFloorDb hasDigitalSilence rmsCV =
     factor4 rmsCV
       (factor3 hasDigitalSilence
          (factor2 stdRolloff
             (factor1 avgRolloff noiseFloorDb hasDigitalSilence init_scoring)))"

subsection \<open>Result\<close>

datatype classification = Human_Voice | AI_Generated_Voice

definition classify :: "int \<Rightarrow> classification" where
  "classify sc = (let isAI = sc > 35 in if isAI then AI_Generated_Voice else Human_Voice)"

text \<open>\<open>Math.round\<close>: the nearest integer, ties towards \<open>+\<infinity>\<close>.\<close>

definition js_round :: "real \<Rightarrow> int" where
  "js_round x = \<lfloor>x + 1 / 2\<rfloor>"

text \<open>\<open>Math.min\<close> and \<open>Math.max\<close> with a finite first argument.\<close>

fun js_min :: "real \<Rightarrow> jsnum \<Rightarrow> jsnum" where
  "js_min c (Fin x) = Fin (min c x)"
| "js_min c PosInf = Fin c"
| "js_min c NegInf = NegInf"
| "js_min c NaN = NaN"

fun js_max :: "real \<Rightarrow> jsnum \<Rightarrow> jsnum" where
  "js_max c (Fin x) = Fin (max c x)"
| "js_max c PosInf = PosInf"
| "js_max c NegInf = Fin c"
| "js_max c NaN = NaN"

fun js_round_num :: "jsnum \<Rightarrow> jsnum" where
  "js_round_num (Fin x) = Fin (of_int (js_round x))"
| "js_round_num v = v"

record SignalMetrics =
  noiseFloorDb :: int
  frequencyCutoffHz :: jsnum
  harmonicRegularityScore :: jsnum
  energyVariationScore :: jsnum
  breathingArtifactsDetected :: bool

record AnalysisResult =
  classification :: classification
  confidence :: int
  explanation :: string
  metrics :: SignalMetrics
  keyObservation :: string

fun join_space :: "string list \<Rightarrow> string" where
  "join_space [] = []"
| "join_space [x] = x"
| "join_space (x # y # ys) = x @ '' '' @ join_space (y # ys)"

definition confidence_of :: "int \<Rightarrow> int" where
  "confidence_of sc = (let confidence = 60 + min 39 \<bar>sc\<bar> in js_round (of_int confidence))"

text \<open>
  The frame statistics of a decoded recording: \<open>input\<close> is channel 0 of the decoded
  buffer and \<open>sampleRate\<close> its sample rate.
\<close>

definition frames_of :: "real list \<Rightarrow> real \<Rightarrow> frame_acc" where
  "frames_of input sampleRate =
     (let data = normalizeBuffer input;
          BIN_WIDTH = sampleRate / real FFT_SIZE
      in frame_loop data BIN_WIDTH 0 init_acc)"

definition score_of :: "real list \<Rightarrow> real \<Rightarrow> int" where
  "score_of input sampleRate =
     (let st = frames_of input sampleRate
      in score (scoring_of (avgRolloff_of st) (stdRolloff_of st) (noiseFloorDb_of st)
                  (hasDigitalSilence_of (normalizeBuffer input)) (rmsCV_of st)))"

text \<open>
  Everything after the frame loop, from the loop's accumulators and the digital-silence
  flag of the scan.
\<close>

definition aggregate_and_classify :: "frame_acc \<Rightarrow> bool \<Rightarrow> AnalysisResult" where
  "aggregate_and_classify st hasDigitalSilence =
     (let noiseFloorDb = noiseFloorDb_of st;
          avgRolloff = avgRolloff_of st;
          stdRolloff = stdRolloff_of st;
          rmsCV = rmsCV_of st;
          sc = scoring_of avgRolloff stdRolloff noiseFloorDb hasDigitalSilence rmsCV;
          isAI = score sc > 35;
          regularity = js_max 0 (js_min 100 (js_divide (js_sub (Fin 300) stdRolloff) (Fin 3)));
          variation = js_min 100 (js_mul rmsCV (Fin 100))
      in \<lparr>classification = classify (score sc),
          confidence = confidence_of (score sc),
          explanation = join_space (take 2 (explanations sc)),
          metrics = \<lparr>noiseFloorDb = js_round noiseFloorDb,
                      frequencyCutoffHz = js_round_num avgRolloff,
                      harmonicRegularityScore = js_round_num regularity,
                      energyVariationScore = js_round_num variation,
                      breathingArtifactsDetected = (noiseFloorDb > - 70 \<and> \<not> hasDigitalSilence)\<rparr>,
          keyObservation =
            (if primaryObs sc \<noteq> [] then primaryObs sc
             else if isAI then ''Statistical signal rigidity.'' else ''Natural spectral variance.'')\<rparr>)"

definition analyzeAudioSignal :: "real list \<Rightarrow> real \<Rightarrow> AnalysisResult" where
  "analyzeAudioSignal input sampleRate =
     (let data = normalizeBuffer input;
          st = frames_of input sampleRate;
          hasDigitalSilence = hasDigitalSilence_of data
      in aggregate_and_classify st hasDigitalSilence)"

subsection \<open>The frame loop over a store of typed arrays\<close>

text \<open>
  \<open>getMagnitudeSpectrum\<close> and \<open>fft\<close> write into the arrays they are given. To say
  which arrays a call can change, the arrays live in a store: an address is an index into
  the list of arrays, and \<open>new Float32Array\<close> and \<open>slice\<close> append a new array. The length
  of a typed array is fixed, so \<open>inputReal.length\<close> and \<open>data.length\<close> are passed as
  numbers (\<open>n\<close>, \<open>len\<close>); a write outside the array is ignored, as \<open>list_update\<close> does.
\<close>

type_synonym addr = nat
type_synonym heap = "real list list"

definition new_array :: "real list \<Rightarrow> heap \<Rightarrow> addr \<times> heap" where
  "new_array xs h = (length h, h @ [xs])"

definition store :: "addr \<Rightarrow> nat \<Rightarrow> real \<Rightarrow> heap \<Rightarrow> heap" where
  "store a i v h = h[a := (h ! a)[i := v]]"

definition split_step ::
  "addr \<Rightarrow> addr \<Rightarrow> addr \<Rightarrow> addr \<Rightarrow> addr \<Rightarrow> addr \<Rightarrow> nat \<Rightarrow> heap \<Rightarrow> heap" where
  "split_step inputReal inputImag evenReal evenImag oddReal oddImag i h =
     (let h1 = store evenReal i (h ! inputReal ! (2 * i)) h;
          h2 = store evenImag i (h1 ! inputImag ! (2 * i)) h1;
          h3 = store oddReal i (h2 ! inputReal ! (2 * i + 1)) h2
      in store oddImag i (h3 ! inputImag ! (2 * i + 1)) h3)"

definition butterfly_step ::
  "nat \<Rightarrow> nat \<Rightarrow> addr \<Rightarrow> addr \<Rightarrow> addr \<Rightarrow> addr \<Rightarrow> addr \<Rightarrow> addr \<Rightarrow> nat \<Rightarrow> heap \<Rightarrow> heap" where
  "butterfly_step n half inputReal inputImag evenReal evenImag oddReal oddImag k h =
     (let tR = termReal n (h ! oddReal) (h ! oddImag) k;
          tI = termImag n (h ! oddReal) (h ! oddImag) k;
          h1 = store inputReal k (h ! evenReal ! k + tR) h;
          h2 = store inputImag k (h1 ! evenImag ! k + tI) h1;
          h3 = store inputReal (k + half) (h2 ! evenReal ! k - tR) h2
      in store inputImag (k + half) (h3 ! evenImag ! k - tI) h3)"

function fft_h :: "nat \<Rightarrow> addr \<Rightarrow> addr \<Rightarrow> heap \<Rightarrow> heap" where
  "fft_h n inputReal inputImag h =
     (if n \<le> 1 then h
      else
        let half = n div 2;
            (evenReal, h1) = new_array (replicate half 0) h;
            (evenImag, h2) = new_array (replicate half 0) h1;
            (oddReal, h3) = new_array (replicate half 0) h2;
            (oddImag, h4) = new_array (replicate half 0) h3;
            h5 = fold (split_step inputReal inputImag evenReal evenImag oddReal oddImag)
                   [0..<half] h4;
            h6 = fft_h half evenReal evenImag h5;
            h7 = fft_h half oddReal oddImag h6
        in fold (butterfly_step n half inputReal inputImag evenReal evenImag oddReal oddImag)
             [0..<half] h7)"
  by pat_completeness auto
termination
  by (relation "measure (\<lambda>(n, inputReal, inputImag, h). n)") auto

declare fft_h.simps [simp del]

definition window_step :: "addr \<Rightarrow> nat \<Rightarrow> nat \<Rightarrow> heap \<Rightarrow> heap" where
  "window_step re n i h =
     store re i (h ! re ! i * 0.5 * (1 - cos ((2 * pi * real i) / (real n - 1)))) h"

definition mag_step :: "addr \<Rightarrow> addr \<Rightarrow> addr \<Rightarrow> nat \<Rightarrow> heap \<Rightarrow> heap" where
  "mag_step mag re imag i h =
     store mag i (sqrt (h ! re ! i * h ! re ! i + h ! imag ! i * h ! imag ! i)) h"

definition getMagnitudeSpectrum_h :: "addr \<Rightarrow> heap \<Rightarrow> addr \<times> heap" where
  "getMagnitudeSpectrum_h re h =
     (let n = length (h ! re);
          (imag, h1) = new_array (replicate n 0) h;
          h2 = fold (window_step re n) [0..<n] h1;
          h3 = fft_h n re imag h2;
          (mag, h4) = new_array (replicate (n div 2) 0) h3
      in (mag, fold (mag_step mag re imag) [0..<n div 2] h4))"

definition process_frame_h :: "real \<Rightarrow> addr \<Rightarrow> nat \<Rightarrow> frame_acc \<times> heap \<Rightarrow> frame_acc \<times> heap" where
  "process_frame_h BIN_WIDTH data i sh =
     (case sh of (st, h) \<Rightarrow>
        let (chunk, h1) = new_array (slice (h ! data) i (i + FFT_SIZE)) h;
            rms = rms_of (h1 ! chunk);
            st' = rms_update rms st
        in if rms > 0.01 then
             let (copy, h2) = new_array (h1 ! chunk) h1;
                 (spectrum, h3) = getMagnitudeSpectrum_h copy h2
             in (spectral_update BIN_WIDTH (h3 ! spectrum) st', h3)
           else (st', h1))"

function frame_loop_h ::
  "addr \<Rightarrow> nat \<Rightarrow> real \<Rightarrow> nat \<Rightarrow> frame_acc \<times> heap \<Rightarrow> frame_acc \<times> heap" where
  "frame_loop_h data len BIN_WIDTH i sh =
     (if int i < int len - int FFT_SIZE
      then frame_loop_h data len BIN_WIDTH (i + HOP_SIZE) (process_frame_h BIN_WIDTH data i sh)
      else sh)"
  by pat_completeness auto
termination
  by (relation "measure (\<lambda>(data, len, BIN_WIDTH, i, sh). len - i)") (auto simp: HOP_SIZE_def)

declare frame_loop_h.simps [simp del]

text \<open>
  The analysis with the normalized samples held in the store; the zero-run scan reads the
  array after the frame loop.
\<close>

definition analyzeAudioSignal_h :: "real list \<Rightarrow> real \<Rightarrow> AnalysisResult" where
  "analyzeAudioSignal_h input sampleRate =
     (let (data, h0) = new_array (normalizeBuffer input) [];
          BIN_WIDTH = sampleRate / real FFT_SIZE;
          (st, h) = frame_loop_h data (length (h0 ! data)) BIN_WIDTH 0 (init_acc, h0);
          hasDigitalSilence = hasDigitalSilence_of (h ! data)
      in aggregate_and_classify st hasDigitalSilence)"

subsection \<open>Notions used in the statements\<close>

text \<open>The two arrays of the transform read as one array of complex numbers.\<close>

definition cplx :: "real list \<Rightarrow> real list \<Rightarrow> complex list" where
  "cplx re im = map (\<lambda>i. Complex (re ! i) (im ! i)) [0..<length re]"

text \<open>
  The discrete Fourier transform as the specification writes it:
  \<open>output[k] = \<Sum>j. x[j] exp (-2\<pi>i j k / n)\<close>; \<open>dft_cis\<close> is the same sum with
  the exponential written as \<open>cos + i sin\<close>.
\<close>

definition dft :: "complex list \<Rightarrow> nat \<Rightarrow> complex" where
  "dft x k =
     (\<Sum>j<length x. x ! j * exp (- 2 * of_real pi * \<i> * of_nat j * of_nat k / of_nat (length x)))"

definition dft_cis :: "complex list \<Rightarrow> nat \<Rightarrow> complex" where
  "dft_cis x k = (\<Sum>j<length x. x ! j * cis (- 2 * pi * real j * real k / real (length x)))"

text \<open>The frame RMS values above the silence threshold \<open>1e-5\<close>.\<close>

definition qualifying :: "real list \<Rightarrow> real set" where
  "qualifying rs = {r \<in> set rs. r > 0.00001}"

text \<open>The invariant of the running minimum in the frame loop.\<close>

definition min_inv :: "frame_acc \<Rightarrow> bool" where
  "min_inv st \<longleftrightarrow>
     qualifying (frameRMS st) \<subseteq> {r. r < 1}
     \<and> minGlobalRMS st =
         (if qualifying (frameRMS st) = {} then 1 else Min (qualifying (frameRMS st)))"

section \<open>Properties\<close>

subsection \<open>Rounding\<close>

lemma rne_floor_le: "\<lfloor>y\<rfloor> \<le> rne y" and rne_le_floor_Suc: "rne y \<le> \<lfloor>y\<rfloor> + 1"
  by (simp_all add: rne_def Let_def)

lemma rne_of_int [simp]: "rne (of_int k) = k"
  by (simp add: rne_def)

lemma rne_unfold:
  "rne y = (if y - of_int \<lfloor>y\<rfloor> < 1 / 2 then \<lfloor>y\<rfloor>
     else if 1 / 2 < y - of_int \<lfloor>y\<rfloor> then \<lfloor>y\<rfloor> + 1
     else if even \<lfloor>y\<rfloor> then \<lfloor>y\<rfloor> else \<lfloor>y\<rfloor> + 1)"
  by (simp add: rne_def Let_def)

lemma rne_error: "\<bar>of_int (rne y) - y\<bar> \<le> 1 / 2"
proof -
  define f where "f = \<lfloor>y\<rfloor>"
  have f: "of_int f \<le> y" "y < of_int f + 1" unfolding f_def by linarith+
  have "rne y = (if y - of_int f < 1 / 2 then f
         else if 1 / 2 < y - of_int f then f + 1
         else if even f then f else f + 1)"
    unfolding f_def by (rule rne_unfold)
  then show ?thesis
    using f by (auto simp: abs_if split: if_splits)
qed

lemma rne_unique:
  assumes "of_int k - 1 / 2 < y" "y < of_int k + 1 / 2"
  shows "rne y = k"
proof -
  have "\<bar>of_int (rne y) - y\<bar> \<le> 1 / 2" by (rule rne_error)
  then have "\<bar>of_int (rne y) - (of_int k :: real)\<bar> < 1"
    using assms by linarith
  then have "\<bar>rne y - k\<bar> < 1"
    by (metis of_int_diff of_int_abs of_int_less_1_iff)
  then show ?thesis by linarith
qed

lemma rne_mono:
  assumes "x \<le> y"
  shows "rne x \<le> rne y"
proof (cases "\<lfloor>x\<rfloor> = \<lfloor>y\<rfloor>")
  case True
  then show ?thesis
    using assms by (auto simp: rne_def Let_def)
next
  case False
  then have "\<lfloor>x\<rfloor> < \<lfloor>y\<rfloor>"
    using assms floor_mono [of x y] by linarith
  then show ?thesis
    using rne_le_floor_Suc [of x] rne_floor_le [of y] by linarith
qed

lemma rne_minus: "rne (- y) = - rne y"
proof (cases "y \<in> \<int>")
  case True
  then obtain k where "y = of_int k" by (auto elim: Ints_cases)
  then show ?thesis
    by (metis of_int_minus rne_of_int)
next
  case False
  then have "y \<noteq> of_int \<lfloor>y\<rfloor>" by (metis Ints_of_int)
  then have fl: "\<lfloor>- y\<rfloor> = - \<lfloor>y\<rfloor> - 1"
    by (simp add: floor_minus ceiling_altdef)
  define f where "f = \<lfloor>y\<rfloor>"
  have "rne y = (if y - of_int f < 1 / 2 then f
         else if 1 / 2 < y - of_int f then f + 1
         else if even f then f else f + 1)"
    unfolding f_def by (rule rne_unfold)
  moreover have "rne (- y) = (if - y - of_int (- f - 1) < 1 / 2 then - f - 1
         else if 1 / 2 < - y - of_int (- f - 1) then - f - 1 + 1
         else if even (- f - 1) then - f - 1 else - f - 1 + 1)"
    unfolding rne_def Let_def fl f_def by (rule refl)
  ultimately show ?thesis
    by (auto split: if_splits)
qed

lemma two_powr_powi: "(2 :: real) powr real_of_int e = 2 powi e"
  by (rule powr_real_of_int') simp_all

lemma two_powi_less_iff: "(2 :: real) powi a < 2 powi b \<longleftrightarrow> a < b"
proof
  assume "(2 :: real) powi a < 2 powi b"
  then show "a < b"
    using power_int_increasing [of b a "2 :: real"] by (cases "a < b") auto
next
  assume "a < b"
  then show "(2 :: real) powi a < 2 powi b"
    by (intro power_int_strict_increasing) simp_all
qed

lemma two_powi_le_iff: "(2 :: real) powi a \<le> 2 powi b \<longleftrightarrow> a \<le> b"
  using two_powi_less_iff [of b a] by (auto simp: not_less [symmetric])

lemma binade:
  assumes "x \<noteq> 0"
  shows "2 powi \<lfloor>log 2 \<bar>x\<bar>\<rfloor> \<le> \<bar>x\<bar>" and "\<bar>x\<bar> < 2 powi (\<lfloor>log 2 \<bar>x\<bar>\<rfloor> + 1)"
proof -
  have "0 < \<bar>x\<bar>" using assms by simp
  then have "2 powr real_of_int \<lfloor>log 2 \<bar>x\<bar>\<rfloor> \<le> \<bar>x\<bar>
      \<and> \<bar>x\<bar> < 2 powr (real_of_int \<lfloor>log 2 \<bar>x\<bar>\<rfloor> + 1)"
    using floor_log_eq_powr_iff [of "\<bar>x\<bar>" 2 "\<lfloor>log 2 \<bar>x\<bar>\<rfloor>"] by simp
  then show "2 powi \<lfloor>log 2 \<bar>x\<bar>\<rfloor> \<le> \<bar>x\<bar>" and "\<bar>x\<bar> < 2 powi (\<lfloor>log 2 \<bar>x\<bar>\<rfloor> + 1)"
    using two_powr_powi [of "\<lfloor>log 2 \<bar>x\<bar>\<rfloor>"] two_powr_powi [of "\<lfloor>log 2 \<bar>x\<bar>\<rfloor> + 1"]
    by simp_all
qed

lemma floor_log2_eq:
  assumes "2 powi e \<le> \<bar>x\<bar>" and "\<bar>x\<bar> < 2 powi (e + 1)"
  shows "\<lfloor>log 2 \<bar>x\<bar>\<rfloor> = e"
proof -
  have "0 < (2 :: real) powi e" by simp
  then have pos: "0 < \<bar>x\<bar>" using assms(1) by linarith
  have "2 powr real_of_int e \<le> \<bar>x\<bar> \<and> \<bar>x\<bar> < 2 powr (real_of_int e + 1)"
    using assms two_powr_powi [of e] two_powr_powi [of "e + 1"] by simp
  then show ?thesis
    using floor_log_eq_powr_iff [OF pos, of 2 e] by simp
qed

lemma fexp_eq:
  assumes "2 powi e \<le> \<bar>x\<bar>" and "\<bar>x\<bar> < 2 powi (e + 1)"
  shows "fexp p emin x = max e emin - (int p - 1)"
  by (simp add: fexp_def floor_log2_eq [OF assms])

lemma round_fp_eval:
  assumes "2 powi e \<le> \<bar>x\<bar>" and "\<bar>x\<bar> < 2 powi (e + 1)"
  shows "round_fp p emin x =
    of_int (rne (x / 2 powi (max e emin - (int p - 1)))) * 2 powi (max e emin - (int p - 1))"
proof -
  have "0 < (2 :: real) powi e" by simp
  then have "0 < \<bar>x\<bar>" using assms(1) by linarith
  then have "x \<noteq> 0" by simp
  then show ?thesis
    by (simp add: round_fp_def fexp_eq [OF assms])
qed

lemma round_fp_value:
  assumes "2 powi e \<le> \<bar>x\<bar>" and "\<bar>x\<bar> < 2 powi (e + 1)"
    and "of_int k - 1 / 2 < x / 2 powi (max e emin - (int p - 1))"
    and "x / 2 powi (max e emin - (int p - 1)) < of_int k + 1 / 2"
  shows "round_fp p emin x = of_int k * 2 powi (max e emin - (int p - 1))"
  unfolding round_fp_eval [OF assms(1,2)] rne_unique [OF assms(3,4)] by (rule refl)

lemma fexp_minus: "fexp p emin (- x) = fexp p emin x"
  by (simp add: fexp_def)

lemma round_fp_minus: "round_fp p emin (- x) = - round_fp p emin x"
  by (simp add: round_fp_def fexp_minus rne_minus)

lemma round_fp_zero [simp]: "round_fp p emin 0 = 0"
  by (simp add: round_fp_def)

lemma round_fp_nonneg:
  assumes "0 \<le> x"
  shows "0 \<le> round_fp p emin x"
proof (cases "x = 0")
  case True
  then show ?thesis by simp
next
  case False
  have "0 \<le> x / 2 powi fexp p emin x" using assms by simp
  then have "rne 0 \<le> rne (x / 2 powi fexp p emin x)" by (rule rne_mono)
  then have "0 \<le> rne (x / 2 powi fexp p emin x)"
    using rne_of_int [of 0] by simp
  then show ?thesis
    using False by (simp add: round_fp_def)
qed

lemma fexp_lower: "emin - (int p - 1) \<le> fexp p emin x"
  by (simp add: fexp_def)

text \<open>A number with a short enough significand is not changed.\<close>

lemma round_fp_exact:
  assumes x: "x = of_int m * 2 powi j" and m: "\<bar>m\<bar> < 2 ^ p" and j: "emin - (int p - 1) \<le> j"
  shows "round_fp p emin x = x"
proof (cases "x = 0")
  case True
  then show ?thesis by simp
next
  case False
  define e where "e = \<lfloor>log 2 \<bar>x\<bar>\<rfloor>"
  define u where "u = fexp p emin x"
  have u: "u = max e emin - (int p - 1)" by (simp add: u_def fexp_def e_def)
  have "2 powi e \<le> \<bar>x\<bar>" unfolding e_def using False by (rule binade)
  also have "\<bar>x\<bar> = of_int \<bar>m\<bar> * 2 powi j"
    by (simp add: x abs_mult)
  also have "\<dots> < 2 ^ p * 2 powi j"
  proof -
    have "real_of_int \<bar>m\<bar> < 2 ^ p" using m by (metis of_int_less_numeral_power_cancel_iff)
    then show ?thesis by (intro mult_strict_right_mono) simp_all
  qed
  also have "\<dots> = 2 powi (int p + j)"
    by (simp add: power_int_add)
  finally have "e < int p + j"
    by (simp only: two_powi_less_iff)
  then have "u \<le> j" using j u by linarith
  then obtain d where d: "j = u + int d"
    by (metis zle_iff_zadd)
  have "x / 2 powi u = of_int (m * 2 ^ d)"
    by (simp add: x d power_int_add)
  then have "rne (x / 2 powi u) = m * 2 ^ d"
    by (simp only: rne_of_int)
  then have "round_fp p emin x = of_int (m * 2 ^ d) * 2 powi u"
    using False by (simp add: round_fp_def u_def)
  also have "\<dots> = x"
    by (simp add: x d power_int_add)
  finally show ?thesis .
qed

lemma floor_log2_mono:
  assumes "0 < x" "x \<le> y"
  shows "\<lfloor>log 2 \<bar>x\<bar>\<rfloor> \<le> \<lfloor>log 2 \<bar>y\<bar>\<rfloor>"
proof -
  have "log 2 x \<le> log 2 y" using assms by simp
  then show ?thesis using assms by (simp add: floor_mono)
qed

lemma round_fp_mono_pos:
  assumes p: "0 < p" and x: "0 < x" and xy: "x \<le> y"
  shows "round_fp p emin x \<le> round_fp p emin y"
proof -
  define ex where "ex = \<lfloor>log 2 \<bar>x\<bar>\<rfloor>"
  define ey where "ey = \<lfloor>log 2 \<bar>y\<bar>\<rfloor>"
  define cx where "cx = max ex emin"
  define cy where "cy = max ey emin"
  have y: "0 < y" using x xy by simp
  have x0: "x \<noteq> 0" and y0: "y \<noteq> 0" using x y by simp_all
  have exy: "ex \<le> ey" unfolding ex_def ey_def using x xy by (rule floor_log2_mono)
  then have cxy: "cx \<le> cy" by (simp add: cx_def cy_def)
  have rx: "round_fp p emin x = of_int (rne (x / 2 powi (cx - (int p - 1)))) * 2 powi (cx - (int p - 1))"
    using x0 by (simp add: round_fp_def fexp_def cx_def ex_def)
  have ry: "round_fp p emin y = of_int (rne (y / 2 powi (cy - (int p - 1)))) * 2 powi (cy - (int p - 1))"
    using y0 by (simp add: round_fp_def fexp_def cy_def ey_def)
  show ?thesis
  proof (cases "cx = cy")
    case True
    have "x / 2 powi (cy - (int p - 1)) \<le> y / 2 powi (cy - (int p - 1))"
      using xy by (simp add: divide_right_mono)
    then have "rne (x / 2 powi (cy - (int p - 1))) \<le> rne (y / 2 powi (cy - (int p - 1)))"
      by (rule rne_mono)
    then show ?thesis
      unfolding rx ry True by (intro mult_right_mono) simp_all
  next
    case False
    then have lt: "cx < cy" using cxy by simp
    then have cy: "cy = ey" by (simp add: cx_def cy_def max_def split: if_splits)
    \<comment> \<open>\<open>x\<close> rounds to at most the next power of two\<close>
    have "x < 2 powi (ex + 1)" using binade(2) [OF x0] x by (simp add: ex_def)
    also have "\<dots> \<le> 2 powi (cx + 1)" by (simp add: two_powi_le_iff cx_def)
    finally have "x / 2 powi (cx - (int p - 1)) < 2 powi (cx + 1) / 2 powi (cx - (int p - 1))"
      by (simp add: divide_strict_right_mono)
    also have "2 powi (cx + 1) / 2 powi (cx - (int p - 1)) = (2 :: real) powi (int p)"
      by (simp add: power_int_diff [symmetric])
    finally have "x / 2 powi (cx - (int p - 1)) \<le> of_int (2 ^ p)" by simp
    then have "rne (x / 2 powi (cx - (int p - 1))) \<le> rne (of_int (2 ^ p))" by (rule rne_mono)
    then have "rne (x / 2 powi (cx - (int p - 1))) \<le> 2 ^ p" by (simp only: rne_of_int)
    then have "real_of_int (rne (x / 2 powi (cx - (int p - 1)))) \<le> 2 powi (int p)"
      by (metis of_int_le_numeral_power_cancel_iff power_int_of_nat)
    then have "round_fp p emin x \<le> 2 powi (int p) * 2 powi (cx - (int p - 1))"
      unfolding rx by (intro mult_right_mono) simp_all
    also have "\<dots> = 2 powi (int p + (cx - (int p - 1)))"
      by (rule power_int_add [symmetric]) simp
    also have "int p + (cx - (int p - 1)) = cx + 1" by simp
    also have "(2 :: real) powi (cx + 1) \<le> 2 powi cy" using lt by (simp add: two_powi_le_iff)
    finally have left: "round_fp p emin x \<le> 2 powi cy" .
    \<comment> \<open>\<open>y\<close> rounds to at least the power of two below it\<close>
    have "2 powi cy \<le> y" using binade(1) [OF y0] y by (simp add: cy ey_def)
    then have "2 powi cy / 2 powi (cy - (int p - 1)) \<le> y / 2 powi (cy - (int p - 1))"
      by (simp add: divide_right_mono)
    moreover have "2 powi cy / 2 powi (cy - (int p - 1)) = (2 :: real) powi (int p - 1)"
      by (simp add: power_int_diff [symmetric])
    moreover have P: "(2 :: real) powi (int p - 1) = of_int (2 ^ (p - 1))"
      using p by (simp add: power_int_def nat_diff_distrib')
    ultimately have "of_int (2 ^ (p - 1)) \<le> y / 2 powi (cy - (int p - 1))" by simp
    then have "rne (of_int (2 ^ (p - 1))) \<le> rne (y / 2 powi (cy - (int p - 1)))" by (rule rne_mono)
    then have "2 ^ (p - 1) \<le> rne (y / 2 powi (cy - (int p - 1)))" by (simp only: rne_of_int)
    then have "real_of_int (2 ^ (p - 1)) \<le> real_of_int (rne (y / 2 powi (cy - (int p - 1))))"
      by (simp only: of_int_le_iff)
    then have "real_of_int (2 ^ (p - 1)) * 2 powi (cy - (int p - 1)) \<le> round_fp p emin y"
      unfolding ry by (intro mult_right_mono) simp_all
    moreover have "real_of_int (2 ^ (p - 1)) * 2 powi (cy - (int p - 1)) = 2 powi cy"
    proof -
      have "real_of_int (2 ^ (p - 1)) * 2 powi (cy - (int p - 1)) =
          2 powi (int p - 1) * 2 powi (cy - (int p - 1))"
        by (simp only: P)
      also have "\<dots> = 2 powi ((int p - 1) + (cy - (int p - 1)))"
        by (rule power_int_add [symmetric]) simp
      also have "(int p - 1) + (cy - (int p - 1)) = cy" by simp
      finally show ?thesis .
    qed
    ultimately have right: "2 powi cy \<le> round_fp p emin y" by simp
    show ?thesis using left right by linarith
  qed
qed

lemma round_fp_mono:
  assumes p: "0 < p" and xy: "x \<le> y"
  shows "round_fp p emin x \<le> round_fp p emin y"
proof -
  consider "0 < x" | "x \<le> 0" "0 \<le> y" | "y < 0" by linarith
  then show ?thesis
  proof cases
    case 1
    then show ?thesis using p xy by (intro round_fp_mono_pos)
  next
    case 2
    have "round_fp p emin x \<le> 0"
      using round_fp_nonneg [of "- x" p emin] 2(1) by (simp add: round_fp_minus)
    moreover have "0 \<le> round_fp p emin y" using 2(2) by (rule round_fp_nonneg)
    ultimately show ?thesis by linarith
  next
    case 3
    then have "round_fp p emin (- y) \<le> round_fp p emin (- x)"
      using p xy by (intro round_fp_mono_pos) simp_all
    then show ?thesis by (simp add: round_fp_minus)
  qed
qed

lemma round_fp_abs: "\<bar>round_fp p emin x\<bar> = round_fp p emin \<bar>x\<bar>"
proof (cases "0 \<le> x")
  case True
  then show ?thesis using round_fp_nonneg [of x p emin] by simp
next
  case False
  then have "0 \<le> round_fp p emin (- x)" by (intro round_fp_nonneg) simp
  then show ?thesis using False by (simp add: round_fp_minus)
qed

text \<open>The relative error of rounding a number of the normal range.\<close>

lemma round_fp_error:
  assumes "2 powi emin \<le> \<bar>x\<bar>"
  shows "\<bar>round_fp p emin x - x\<bar> \<le> \<bar>x\<bar> * 2 powi (- int p)"
proof -
  define e where "e = \<lfloor>log 2 \<bar>x\<bar>\<rfloor>"
  define u :: real where "u = 2 powi (e - (int p - 1))"
  have "0 < (2 :: real) powi emin" by simp
  then have "0 < \<bar>x\<bar>" using assms by linarith
  then have x0: "x \<noteq> 0" by simp
  have lo: "2 powi e \<le> \<bar>x\<bar>" and hi: "\<bar>x\<bar> < 2 powi (e + 1)"
    unfolding e_def using binade [OF x0] by simp_all
  have "(2 :: real) powi emin < 2 powi (e + 1)" using assms hi by linarith
  then have "emin \<le> e" by (simp add: two_powi_less_iff)
  then have r: "round_fp p emin x = of_int (rne (x / u)) * u"
    using x0 by (simp add: round_fp_def fexp_def e_def u_def max_def)
  have u: "0 < u" by (simp add: u_def)
  have "round_fp p emin x - x = (of_int (rne (x / u)) - x / u) * u"
    using u by (simp add: r field_simps)
  then have "\<bar>round_fp p emin x - x\<bar> = \<bar>of_int (rne (x / u)) - x / u\<bar> * u"
    using u by (simp add: abs_mult)
  also have "\<dots> \<le> 1 / 2 * u"
    using u rne_error [of "x / u"] by (intro mult_right_mono) simp_all
  also have "1 / 2 * u = 2 powi e * 2 powi (- int p)"
  proof -
    have "u = 2 powi ((e - int p) + 1)" by (simp add: u_def algebra_simps)
    also have "\<dots> = 2 powi (e - int p) * 2" by (rule power_int_add_1) simp
    finally have "1 / 2 * u = 2 powi (e + (- int p))" by simp
    also have "\<dots> = 2 powi e * 2 powi (- int p)" by (rule power_int_add) simp
    finally show ?thesis .
  qed
  also have "\<dots> \<le> \<bar>x\<bar> * 2 powi (- int p)"
    using lo by (intro mult_right_mono) simp_all
  finally show ?thesis .
qed

text \<open>The absolute error of rounding a number below a power of two.\<close>

lemma round_fp_abs_error:
  assumes "\<bar>x\<bar> < 2 powi b" and "emin \<le> b - 1"
  shows "\<bar>round_fp p emin x - x\<bar> \<le> 2 powi (b - 1 - int p)"
proof (cases "x = 0")
  case True
  then show ?thesis by simp
next
  case False
  define e where "e = \<lfloor>log 2 \<bar>x\<bar>\<rfloor>"
  define u :: real where "u = 2 powi fexp p emin x"
  have "2 powi e \<le> \<bar>x\<bar>" unfolding e_def using False by (rule binade)
  then have "(2 :: real) powi e < 2 powi b" using assms(1) by linarith
  then have "e \<le> b - 1" by (simp add: two_powi_less_iff)
  then have "fexp p emin x \<le> b - 1 - (int p - 1)"
    using assms(2) by (simp add: fexp_def e_def)
  then have ub: "u \<le> 2 powi (b - 1 - (int p - 1))"
    unfolding u_def by (simp only: two_powi_le_iff)
  have u: "0 < u" by (simp add: u_def)
  have r: "round_fp p emin x = of_int (rne (x / u)) * u"
    using False by (simp add: round_fp_def u_def)
  have "round_fp p emin x - x = (of_int (rne (x / u)) - x / u) * u"
    using u by (simp add: r field_simps)
  then have "\<bar>round_fp p emin x - x\<bar> = \<bar>of_int (rne (x / u)) - x / u\<bar> * u"
    using u by (simp add: abs_mult)
  also have "\<dots> \<le> 1 / 2 * u"
    using u rne_error [of "x / u"] by (intro mult_right_mono) simp_all
  also have "\<dots> \<le> 1 / 2 * 2 powi (b - 1 - (int p - 1))"
    using ub by simp
  also have "\<dots> = 2 powi (b - 1 - int p)"
  proof -
    have "(2 :: real) powi (b - 1 - (int p - 1)) = 2 powi ((b - 1 - int p) + 1)"
      by (simp add: algebra_simps)
    also have "\<dots> = 2 powi (b - 1 - int p) * 2" by (rule power_int_add_1) simp
    finally show ?thesis by simp
  qed
  finally show ?thesis .
qed

text \<open>The two precisions of the program.\<close>

lemma fl64_zero [simp]: "fl64 0 = 0" and fround_zero [simp]: "fround 0 = 0"
  by (simp_all add: fl64_def fround_def)

lemma fl64_nonneg: "0 \<le> x \<Longrightarrow> 0 \<le> fl64 x" and fround_nonneg: "0 \<le> x \<Longrightarrow> 0 \<le> fround x"
  unfolding fl64_def fround_def by (rule round_fp_nonneg; assumption)+

lemma fl64_mono: "x \<le> y \<Longrightarrow> fl64 x \<le> fl64 y" and fround_mono: "x \<le> y \<Longrightarrow> fround x \<le> fround y"
  unfolding fl64_def fround_def by (rule round_fp_mono; simp)+

lemma fl64_abs: "\<bar>fl64 x\<bar> = fl64 \<bar>x\<bar>" and fround_abs: "\<bar>fround x\<bar> = fround \<bar>x\<bar>"
  unfolding fl64_def fround_def by (rule round_fp_abs)+

lemma fl64_minus: "fl64 (- x) = - fl64 x" and fround_minus: "fround (- x) = - fround x"
  unfolding fl64_def fround_def by (rule round_fp_minus)+

lemma fl64_error:
  assumes "2 powi (- 1022) \<le> \<bar>x\<bar>"
  shows "\<bar>fl64 x - x\<bar> \<le> \<bar>x\<bar> / 2 ^ 53"
  using round_fp_error [OF assms, of 53] by (simp add: fl64_def power_int_minus field_simps)

lemma fround_abs_error:
  assumes "\<bar>x\<bar> < 1"
  shows "\<bar>fround x - x\<bar> \<le> 1 / 2 ^ 25"
proof -
  have "\<bar>round_fp 24 (- 126) x - x\<bar> \<le> 2 powi (0 - 1 - int 24)"
    using assms by (intro round_fp_abs_error) simp_all
  then show ?thesis
    by (simp add: fround_def power_int_minus field_simps)
qed

lemma fl64_exact:
  "x = of_int m * 2 powi j \<Longrightarrow> \<bar>m\<bar> < 2 ^ 53 \<Longrightarrow> - 1074 \<le> j \<Longrightarrow> fl64 x = x"
  unfolding fl64_def by (rule round_fp_exact) simp_all

lemma fround_exact:
  "x = of_int m * 2 powi j \<Longrightarrow> \<bar>m\<bar> < 2 ^ 24 \<Longrightarrow> - 149 \<le> j \<Longrightarrow> fround x = x"
  unfolding fround_def by (rule round_fp_exact) simp_all

lemma fl64_095: "fl64 0.95 = 4278419646001971 / 2 ^ 52"
proof -
  have "fl64 0.95 = of_int 8556839292003942 * 2 powi (max (- 1) (- 1022) - (int 53 - 1))"
    unfolding fl64_def by (rule round_fp_value) (simp_all add: power_int_minus)
  then show ?thesis by (simp add: power_int_minus)
qed

lemma fround_near_095:
  assumes "94999996 / 100000000 \<le> t" "t \<le> 95000001 / 100000000"
  shows "fround t = 15938355 / 2 ^ 24"
proof -
  have "fround t = of_int 15938355 * 2 powi (max (- 1) (- 126) - (int 24 - 1))"
    unfolding fround_def using assms
    by (intro round_fp_value) (simp_all add: power_int_minus field_simps)
  then show ?thesis by (simp add: power_int_minus)
qed

lemma fround_095: "fround 0.95 = 15938355 / 2 ^ 24"
  by (rule fround_near_095) simp_all

lemma is_float32_lower:
  assumes "is_float32 p" "0 < p"
  shows "1 / 2 ^ 149 \<le> p"
proof -
  define k where "k = rne (p / 2 powi fexp 24 (- 126) p)"
  have p: "p = of_int k * 2 powi fexp 24 (- 126) p"
    using assms by (simp add: is_float32_def fround_def round_fp_def k_def)
  have "0 < real_of_int k * 2 powi fexp 24 (- 126) p" using assms(2) p by simp
  moreover have "0 < (2 :: real) powi fexp 24 (- 126) p" by simp
  ultimately have "0 < real_of_int k" by (simp only: zero_less_mult_pos2)
  then have "1 \<le> real_of_int k" by simp
  moreover have "(2 :: real) powi (- 149) \<le> 2 powi fexp 24 (- 126) p"
    using fexp_lower [of "- 126" 24 p] by (intro two_powi_le_iff [THEN iffD2]) simp
  ultimately have "1 * 2 powi (- 149) \<le> real_of_int k * 2 powi fexp 24 (- 126) p"
    by (intro mult_mono) simp_all
  then show ?thesis using p by (simp add: power_int_minus field_simps)
qed

lemma is_float32_abs: "is_float32 x \<Longrightarrow> is_float32 \<bar>x\<bar>"
  unfolding is_float32_def using fround_abs [of x] by simp

subsection \<open>Normalizer\<close>

lemma fold_peak_step_Max:
  "0 \<le> m \<Longrightarrow> fold peak_step xs m = Max (insert m (abs ` set xs))"
proof (induction xs arbitrary: m)
  case Nil
  then show ?case by simp
next
  case (Cons x xs)
  have step: "peak_step x m = max m \<bar>x\<bar>"
    by (simp add: peak_step_def max_def)
  have "fold peak_step (x # xs) m = Max (insert (max m \<bar>x\<bar>) (abs ` set xs))"
    using Cons.IH [of "max m \<bar>x\<bar>"] Cons.prems by (simp add: step)
  also have "\<dots> = Max (insert m (insert \<bar>x\<bar> (abs ` set xs)))"
  proof (cases "xs = []")
    case True
    then show ?thesis by simp
  next
    case False
    then have ne: "abs ` set xs \<noteq> {}" by simp
    show ?thesis
      by (simp add: Max_insert [OF _ ne] max.assoc)
  qed
  finally show ?case by (simp add: insert_commute)
qed

lemma maxPeak_of_Max: "maxPeak_of xs = Max (insert 0 (abs ` set xs))"
  unfolding maxPeak_of_def by (rule fold_peak_step_Max) simp

lemma maxPeak_of_nonneg: "0 \<le> maxPeak_of xs"
  unfolding maxPeak_of_Max by (rule Max_ge) simp_all

lemma maxPeak_of_ge: "x \<in> set xs \<Longrightarrow> \<bar>x\<bar> \<le> maxPeak_of xs"
  unfolding maxPeak_of_Max by (rule Max_ge) simp_all

lemma maxPeak_of_nonempty: "xs \<noteq> [] \<Longrightarrow> maxPeak_of xs = Max (abs ` set xs)"
proof -
  assume ne: "xs \<noteq> []"
  then obtain x where x: "x \<in> set xs" by (cases xs) auto
  have fin: "finite (abs ` set xs)" and ne': "abs ` set xs \<noteq> {}"
    using ne by simp_all
  have "\<bar>x\<bar> \<le> Max (abs ` set xs)"
    using x by (intro Max_ge [OF fin]) simp
  then have "0 \<le> Max (abs ` set xs)"
    by simp
  then show ?thesis
    unfolding maxPeak_of_Max by (simp add: Max_insert [OF fin ne'])
qed

lemma maxPeak_of_zero: "maxPeak_of xs = 0 \<Longrightarrow> x \<in> set xs \<Longrightarrow> x = 0"
  using maxPeak_of_ge [of x xs] by simp

lemma length_normalizeBuffer: "length (normalizeBuffer xs) = length xs"
  by (simp add: normalizeBuffer_def Let_def)

lemma normalizeBuffer_silent: "maxPeak_of xs = 0 \<Longrightarrow> normalizeBuffer xs = xs"
proof -
  assume z: "maxPeak_of xs = 0"
  have "map (\<lambda>x. fround (fl64 (x * 1))) xs = xs"
  proof (rule map_idI)
    fix x assume "x \<in> set xs"
    then have "x = 0" by (rule maxPeak_of_zero [OF z])
    then show "fround (fl64 (x * 1)) = x" by simp
  qed
  then show ?thesis using z by (simp add: normalizeBuffer_def)
qed

lemma normalizeBuffer_scaled:
  "maxPeak_of xs \<noteq> 0 \<Longrightarrow>
     normalizeBuffer xs = map (\<lambda>x. fround (fl64 (x * fl64 (fl64 0.95 / maxPeak_of xs)))) xs"
  using maxPeak_of_nonneg [of xs] by (simp add: normalizeBuffer_def Let_def)

lemma maxPeak_of_attained:
  assumes "maxPeak_of xs \<noteq> 0"
  shows "\<exists>x\<in>set xs. \<bar>x\<bar> = maxPeak_of xs"
proof -
  have ne: "xs \<noteq> []" using assms by (auto simp: maxPeak_of_def)
  then have "Max (abs ` set xs) \<in> abs ` set xs" by (intro Max_in) simp_all
  then show ?thesis using maxPeak_of_nonempty [OF ne] by auto
qed

text \<open>
  The scalar is not \<open>0.95 / maxPeak\<close> but the double nearest to the quotient of the double
  nearest to 0.95 by the peak; its product with the peak is within \<open>2\<^sup>-\<^sup>5\<^sup>2\<close> of 0.95.
\<close>

lemma scalar_error:
  assumes f: "is_float32 p" and pos: "0 < p"
  shows "\<bar>p * fl64 (fl64 0.95 / p) - 0.95\<bar> \<le> 1 / 2 ^ 52"
proof -
  define c :: real where "c = 4278419646001971 / 2 ^ 52"
  define q where "q = c / p"
  define s where "s = fl64 q"
  have p128: "p < 2 ^ 128" using f pos by (simp add: is_float32_def)
  have q: "0 < q" using pos by (simp add: q_def c_def)
  have "1 / 2 ^ 129 \<le> c / 2 ^ 128" by (simp add: c_def)
  also have "\<dots> \<le> c / p"
    using pos p128 by (intro divide_left_mono) (simp_all add: c_def)
  finally have "1 / 2 ^ 129 \<le> q" by (simp add: q_def)
  moreover have "(2 :: real) powi (- 1022) \<le> 2 powi (- 129)"
    by (simp add: two_powi_le_iff)
  moreover have "(2 :: real) powi (- 129) = 1 / 2 ^ 129"
    by (simp add: power_int_minus field_simps)
  ultimately have "2 powi (- 1022) \<le> \<bar>q\<bar>" using q by simp
  then have "\<bar>s - q\<bar> \<le> \<bar>q\<bar> / 2 ^ 53" unfolding s_def by (rule fl64_error)
  then have "p * \<bar>s - q\<bar> \<le> p * (q / 2 ^ 53)"
    using pos q by (intro mult_left_mono) simp_all
  moreover have "p * \<bar>s - q\<bar> = \<bar>p * s - c\<bar>"
  proof -
    have "p * (s - q) = p * s - c" using pos by (simp add: q_def right_diff_distrib)
    then have "\<bar>p * (s - q)\<bar> = \<bar>p * s - c\<bar>" by (simp only:)
    then show ?thesis using pos by (simp add: abs_mult)
  qed
  moreover have "p * (q / 2 ^ 53) = c / 2 ^ 53"
    using pos by (simp add: q_def)
  ultimately have "\<bar>p * s - c\<bar> \<le> c / 2 ^ 53" by simp
  then have "\<bar>p * s - c\<bar> \<le> 4278419646001971 / 40564819207303340847894502572032"
    by (simp add: c_def)
  moreover have "c = 4278419646001971 / 4503599627370496" by (simp add: c_def)
  ultimately have "\<bar>p * s - 95 / 100\<bar> \<le> 1 / 4503599627370496"
    by (simp only: abs_le_iff) linarith
  then have "\<bar>p * s - 0.95\<bar> \<le> 1 / 2 ^ 52" by simp
  then show ?thesis
    unfolding fl64_095 s_def q_def c_def .
qed

lemma normalized_peak:
  assumes f: "is_float32 p" and pos: "0 < p"
  shows "fround (fl64 (p * fl64 (fl64 0.95 / p))) = 15938355 / 2 ^ 24"
proof -
  define y where "y = p * fl64 (fl64 0.95 / p)"
  have "\<bar>y - 0.95\<bar> \<le> 1 / 2 ^ 52" unfolding y_def using f pos by (rule scalar_error)
  then have y: "\<bar>y - 95 / 100\<bar> \<le> 1 / 4503599627370496" by simp
  then have ylo: "94 / 100 \<le> y" and yhi: "y \<le> 96 / 100"
    by (simp_all only: abs_le_iff) linarith+
  have "(2 :: real) powi (- 1022) \<le> 2 powi (- 1)"
    by (simp add: two_powi_le_iff)
  also have "\<dots> \<le> \<bar>y\<bar>" using ylo by (simp add: power_int_minus)
  finally have "\<bar>fl64 y - y\<bar> \<le> \<bar>y\<bar> / 2 ^ 53" by (rule fl64_error)
  then have "\<bar>fl64 y - y\<bar> \<le> 96 / 100 / 9007199254740992"
    using ylo yhi by (simp add: field_simps)
  then have "94999996 / 100000000 \<le> fl64 y" "fl64 y \<le> 95000001 / 100000000"
    using y by (simp_all only: abs_le_iff) linarith+
  then show ?thesis
    unfolding y_def by (rule fround_near_095)
qed

text \<open>Every stored sample is within \<open>2\<^sup>-\<^sup>2\<^sup>4\<close> of the product the specification names.\<close>

lemma sample_error:
  assumes f: "is_float32 p" and pos: "0 < p" and x: "\<bar>x\<bar> \<le> p"
  shows "\<bar>fround (fl64 (x * fl64 (fl64 0.95 / p))) - x * (0.95 / p)\<bar> \<le> 1 / 2 ^ 24"
proof -
  define s where "s = fl64 (fl64 0.95 / p)"
  define u where "u = fl64 (x * s)"
  have ps: "\<bar>p * s - 95 / 100\<bar> \<le> 1 / 4503599627370496"
    using scalar_error [OF f pos] by (simp add: s_def)
  have "0 \<le> fl64 0.95" by (rule fl64_nonneg) simp
  then have s0: "0 \<le> s" unfolding s_def using pos by (intro fl64_nonneg) simp
  have "\<bar>x * s\<bar> = \<bar>x\<bar> * s" using s0 by (simp add: abs_mult)
  also have "\<dots> \<le> p * s" using x s0 by (intro mult_right_mono)
  finally have xs: "\<bar>x * s\<bar> \<le> p * s" .
  then have xs1: "\<bar>x * s\<bar> \<le> 96 / 100"
    using ps by (simp_all only: abs_le_iff) linarith
  have "\<bar>round_fp 53 (- 1022) (x * s) - x * s\<bar> \<le> 2 powi (0 - 1 - int 53)"
    using xs1 by (intro round_fp_abs_error) simp_all
  then have e1: "\<bar>u - x * s\<bar> \<le> 1 / 18014398509481984"
    by (simp add: u_def fl64_def power_int_minus field_simps)
  then have "\<bar>u\<bar> < 1"
    using xs1 by (simp_all only: abs_le_iff abs_less_iff) linarith
  then have "\<bar>fround u - u\<bar> \<le> 1 / 2 ^ 25" by (rule fround_abs_error)
  then have e2: "\<bar>fround u - u\<bar> \<le> 1 / 33554432" by simp
  have "x * s - x * (95 / 100 / p) = x / p * (p * s - 95 / 100)"
    using pos by (simp add: field_simps)
  then have "\<bar>x * s - x * (95 / 100 / p)\<bar> = \<bar>x\<bar> / p * \<bar>p * s - 95 / 100\<bar>"
    using pos by (simp add: abs_mult)
  also have "\<dots> \<le> 1 * (1 / 4503599627370496)"
    using x pos ps by (intro mult_mono) simp_all
  finally have e3: "\<bar>x * s - x * (95 / 100 / p)\<bar> \<le> 1 / 4503599627370496" by simp
  have "\<bar>fround u - x * (95 / 100 / p)\<bar> \<le> 1 / 16777216"
    using e1 e2 e3 by (simp_all only: abs_le_iff) linarith
  then have "\<bar>fround u - x * (0.95 / p)\<bar> \<le> 1 / 2 ^ 24" by simp
  then show ?thesis unfolding u_def s_def .
qed

lemma normalizeBuffer_sample_error:
  assumes f: "\<forall>x\<in>set xs. is_float32 x" and nz: "maxPeak_of xs \<noteq> 0" and i: "i < length xs"
  shows "\<bar>normalizeBuffer xs ! i - xs ! i * (0.95 / maxPeak_of xs)\<bar> \<le> 1 / 2 ^ 24"
proof -
  obtain x0 where "x0 \<in> set xs" and x0: "\<bar>x0\<bar> = maxPeak_of xs"
    using maxPeak_of_attained [OF nz] by blast
  then have fp: "is_float32 (maxPeak_of xs)"
    using f is_float32_abs [of x0] by auto
  have pos: "0 < maxPeak_of xs" using nz maxPeak_of_nonneg [of xs] by simp
  have "\<bar>xs ! i\<bar> \<le> maxPeak_of xs" using i by (intro maxPeak_of_ge) simp
  then have "\<bar>fround (fl64 (xs ! i * fl64 (fl64 0.95 / maxPeak_of xs)))
      - xs ! i * (0.95 / maxPeak_of xs)\<bar> \<le> 1 / 2 ^ 24"
    by (rule sample_error [OF fp pos])
  then show ?thesis
    using i unfolding normalizeBuffer_scaled [OF nz] by (simp only: nth_map)
qed

lemma normalizeBuffer_Max:
  assumes f: "\<forall>x\<in>set xs. is_float32 x" and nz: "maxPeak_of xs \<noteq> 0"
  shows "Max (abs ` set (normalizeBuffer xs)) = 15938355 / 2 ^ 24"
proof -
  define p where "p = maxPeak_of xs"
  define s where "s = fl64 (fl64 0.95 / p)"
  obtain x0 where x0: "x0 \<in> set xs" "\<bar>x0\<bar> = p"
    using maxPeak_of_attained [OF nz] unfolding p_def by blast
  then have fp: "is_float32 p"
    using f is_float32_abs [of x0] by auto
  have pos: "0 < p" using nz maxPeak_of_nonneg [of xs] by (simp add: p_def)
  have "0 \<le> fl64 0.95" by (rule fl64_nonneg) simp
  then have s0: "0 \<le> s" unfolding s_def using pos by (intro fl64_nonneg) simp
  have ab: "\<bar>fround (fl64 (x * s))\<bar> = fround (fl64 (\<bar>x\<bar> * s))" for x
    using s0 by (simp add: fround_abs fl64_abs abs_mult)
  have top: "fround (fl64 (p * s)) = 15938355 / 2 ^ 24"
    unfolding s_def using fp pos by (rule normalized_peak)
  have nb: "normalizeBuffer xs = map (\<lambda>x. fround (fl64 (x * s))) xs"
    unfolding s_def p_def using nz by (rule normalizeBuffer_scaled)
  show ?thesis
  proof (rule Max_eqI)
    show "finite (abs ` set (normalizeBuffer xs))" by simp
  next
    fix y assume "y \<in> abs ` set (normalizeBuffer xs)"
    then obtain x where x: "x \<in> set xs" and y: "y = \<bar>fround (fl64 (x * s))\<bar>"
      unfolding nb by auto
    have "\<bar>x\<bar> \<le> p" unfolding p_def using x by (rule maxPeak_of_ge)
    then have "\<bar>x\<bar> * s \<le> p * s" using s0 by (intro mult_right_mono)
    then have "fround (fl64 (\<bar>x\<bar> * s)) \<le> fround (fl64 (p * s))"
      by (intro fround_mono fl64_mono)
    then show "y \<le> 15938355 / 2 ^ 24" by (simp only: y ab top)
  next
    have "\<bar>fround (fl64 (x0 * s))\<bar> = 15938355 / 2 ^ 24"
      by (simp only: ab x0 top)
    moreover have "fround (fl64 (x0 * s)) \<in> set (normalizeBuffer xs)"
      unfolding nb using x0(1) by simp
    ultimately show "15938355 / 2 ^ 24 \<in> abs ` set (normalizeBuffer xs)"
      by (metis imageI)
  qed
qed

text \<open>The double nearest to 0.95 and its multiples by powers of two are doubles.\<close>

lemma fl64_c [simp]: "fl64 (4278419646001971 / 4503599627370496) = 4278419646001971 / 4503599627370496"
  by (rule fl64_exact [where m = 4278419646001971 and j = "- 52"]) (simp_all add: power_int_minus)

lemma fl64_c_half [simp]:
  "fl64 (4278419646001971 / 9007199254740992) = 4278419646001971 / 9007199254740992"
  by (rule fl64_exact [where m = 4278419646001971 and j = "- 53"]) (simp_all add: power_int_minus)

lemma fl64_c_twice [simp]:
  "fl64 (4278419646001971 / 2251799813685248) = 4278419646001971 / 2251799813685248"
  by (rule fl64_exact [where m = 4278419646001971 and j = "- 51"]) (simp_all add: power_int_minus)

lemma fround_c [simp]: "fround (4278419646001971 / 4503599627370496) = 15938355 / 16777216"
  using fround_near_095 [of "4278419646001971 / 4503599627370496"] by simp

lemma fround_c_half [simp]: "fround (4278419646001971 / 9007199254740992) = 15938355 / 33554432"
proof -
  have "fround (4278419646001971 / 9007199254740992)
      = of_int 15938355 * 2 powi (max (- 2) (- 126) - (int 24 - 1))"
    unfolding fround_def by (rule round_fp_value) (simp_all add: power_int_minus)
  then show ?thesis by (simp add: power_int_minus)
qed

lemma fl64_095_simp [simp]: "fl64 (19 / 20) = 4278419646001971 / 4503599627370496"
  using fl64_095 by simp

lemma is_float32_small [simp]:
  "is_float32 0" "is_float32 1" "is_float32 (- 1)" "is_float32 (1 / 2)"
proof -
  have "fround 1 = 1"
    by (rule fround_exact [where m = 1 and j = 0]) simp_all
  moreover have "fround (1 / 2) = 1 / 2"
    by (rule fround_exact [where m = 1 and j = "- 1"]) (simp_all add: power_int_minus)
  ultimately show "is_float32 0" "is_float32 1" "is_float32 (- 1)" "is_float32 (1 / 2)"
    by (simp_all add: is_float32_def fround_minus)
qed

lemma normalizeBuffer_example:
  "normalizeBuffer [1 / 2, - 1] = [15938355 / 2 ^ 25, - (15938355 / 2 ^ 24)]"
  by (simp add: normalizeBuffer_def maxPeak_of_def peak_step_def fl64_minus fround_minus)




subsection \<open>Digital silence scan\<close>

lemma zero_run_scan_zeros: "zero_run_scan (replicate n 0) (c, m) = (c + n, m)"
  by (induction n arbitrary: c) simp_all

lemma normalizeBuffer_one_then_zeros:
  "normalizeBuffer (1 # replicate 1500 0) = (15938355 / 2 ^ 24) # replicate 1500 0"
proof -
  have "maxPeak_of (1 # replicate 1500 0) = 1"
    by (simp add: maxPeak_of_Max)
  then show ?thesis
    by (simp add: normalizeBuffer_def)
qed

lemma zero_run_scan_append:
  "zero_run_scan (xs @ ys) st = zero_run_scan ys (zero_run_scan xs st)"
  by (induction xs st rule: zero_run_scan.induct) simp_all

lemma maxZeroRun_of_trailing_zeros: "maxZeroRun_of (data @ replicate n 0) = maxZeroRun_of data"
  by (cases "zero_run_scan data (0, 0)")
    (simp add: maxZeroRun_of_def zero_run_scan_append zero_run_scan_zeros)

text \<open>
  C1. The scan records a run only when a non-zero sample ends it, so a run that lasts to
  the end of the signal is never counted: appending zeros to a signal never changes
  \<open>maxZeroRun\<close>. For one sample of value 1 followed by 1500 zeros, the normalized signal
  ends in 1500 zeros, \<open>maxZeroRun\<close> is 0 and \<open>hasDigitalSilence\<close> is false.
\<close>

theorem trailing_zero_run_not_counted:
  "maxZeroRun_of (data @ replicate n 0) = maxZeroRun_of data
   \<and> drop 1 (normalizeBuffer (1 # replicate 1500 0)) = replicate 1500 0
   \<and> maxZeroRun_of (normalizeBuffer (1 # replicate 1500 0)) = 0
   \<and> \<not> hasDigitalSilence_of (normalizeBuffer (1 # replicate 1500 0))"
  by (simp add: maxZeroRun_of_trailing_zeros normalizeBuffer_one_then_zeros
      hasDigitalSilence_of_def)
    (simp add: maxZeroRun_of_def zero_run_scan_zeros)

subsection \<open>Framing\<close>

lemma frame_loop_done:
  "\<not> int i < int (length data) - int FFT_SIZE \<Longrightarrow> frame_loop data B i st = st"
  by (subst frame_loop.simps) simp

lemma frame_loop_step:
  "int i < int (length data) - int FFT_SIZE \<Longrightarrow>
     frame_loop data B i st =
       frame_loop data B (i + HOP_SIZE) (process_frame B (slice data i (i + FFT_SIZE)) st)"
  by (subst frame_loop.simps) simp

lemma length_frameRMS_process_frame:
  "length (frameRMS (process_frame B chunk st)) = Suc (length (frameRMS st))"
  by (simp add: process_frame_def Let_def rms_update_def spectral_update_def)

lemma frame_count_step:
  fixes n i :: nat
  assumes "i + 2048 < n"
  shows "(if n \<le> i + 1024 + 2048 then 0 else (n - (i + 1024) - 2049) div 1024 + 1) + 1
    = (n - i - 2049) div 1024 + 1"
proof (cases "n \<le> i + 1024 + 2048")
  case True
  then have "n - i - 2049 < 1024" using assms by simp
  then show ?thesis using True by simp
next
  case False
  then have "n - i - 2049 = (n - (i + 1024) - 2049) + 1024" by simp
  then show ?thesis using False by simp
qed

lemma frame_loop_count:
  "length (frameRMS (frame_loop data B i st)) =
     length (frameRMS st)
     + (if length data \<le> i + 2048 then 0 else (length data - i - 2049) div 1024 + 1)"
proof (induction data B i st rule: frame_loop.induct)
  case (1 data B i st)
  show ?case
  proof (cases "int i < int (length data) - int FFT_SIZE")
    case False
    then show ?thesis
      by (simp add: frame_loop_done FFT_SIZE_def)
  next
    case True
    then have lt: "i + 2048 < length data" by (simp add: FFT_SIZE_def)
    define X where "X = (if length data \<le> i + 1024 + 2048 then 0
      else (length data - (i + 1024) - 2049) div 1024 + 1)"
    have X: "X + 1 = (length data - i - 2049) div 1024 + 1"
      unfolding X_def using lt by (rule frame_count_step)
    have "length (frameRMS (frame_loop data B i st)) = Suc (length (frameRMS st)) + X"
      unfolding frame_loop_step [OF True, unfolded HOP_SIZE_def]
        "1.IH" [OF True, unfolded HOP_SIZE_def] length_frameRMS_process_frame X_def
      by (rule refl)
    also have "\<dots> = length (frameRMS st) + (X + 1)" by simp
    also have "\<dots> = length (frameRMS st)
        + (if length data \<le> i + 2048 then 0 else (length data - i - 2049) div 1024 + 1)"
      unfolding X using lt by simp
    finally show ?thesis .
  qed
qed

text \<open>The energies the loop records are those of the frames at the offsets it visits.\<close>

lemma frameRMS_process_frame:
  "frameRMS (process_frame B chunk st) = frameRMS st @ [rms_of chunk]"
  by (simp add: process_frame_def Let_def rms_update_def spectral_update_def)

lemma frame_loop_frameRMS:
  "frameRMS (frame_loop data B i st) =
     frameRMS st
     @ map (\<lambda>k. rms_of (slice data (i + k * 1024) (i + k * 1024 + 2048)))
         [0..<(if length data \<le> i + 2048 then 0 else (length data - i - 2049) div 1024 + 1)]"
proof (induction data B i st rule: frame_loop.induct)
  case (1 data B i st)
  show ?case
  proof (cases "int i < int (length data) - int FFT_SIZE")
    case False
    then show ?thesis
      by (simp add: frame_loop_done FFT_SIZE_def)
  next
    case True
    then have lt: "i + 2048 < length data" by (simp add: FFT_SIZE_def)
    define X where "X = (if length data \<le> i + 1024 + 2048 then 0
      else (length data - (i + 1024) - 2049) div 1024 + 1)"
    define R where "R j = rms_of (slice data j (j + 2048))" for j
    have X: "X + 1 = (length data - i - 2049) div 1024 + 1"
      unfolding X_def using lt by (rule frame_count_step)
    have "frameRMS (frame_loop data B i st) =
        (frameRMS st @ [R i]) @ map (\<lambda>k. R (i + 1024 + k * 1024)) [0..<X]"
      unfolding frame_loop_step [OF True, unfolded HOP_SIZE_def FFT_SIZE_def]
        "1.IH" [OF True, unfolded HOP_SIZE_def FFT_SIZE_def] frameRMS_process_frame X_def R_def
      by (rule refl)
    also have "\<dots> = frameRMS st @ map (\<lambda>k. R (i + k * 1024)) [0..<Suc X]"
    proof -
      have "map (\<lambda>k. R (i + k * 1024)) [0..<Suc X] =
          R (i + 0 * 1024) # map (\<lambda>k. R (i + Suc k * 1024)) [0..<X]"
        by (rule map_upt_Suc)
      then show ?thesis by (simp add: add.assoc del: upt_Suc)
    qed
    also have "Suc X = (if length data \<le> i + 2048 then 0 else (length data - i - 2049) div 1024 + 1)"
      using X lt by simp
    finally show ?thesis unfolding R_def .
  qed
qed

lemma frames_of_frameRMS:
  "frameRMS (frames_of input sampleRate) =
     map (\<lambda>k. rms_of (slice (normalizeBuffer input) (k * 1024) (k * 1024 + 2048)))
       [0..<(if length input \<le> 2048 then 0 else (length input - 2049) div 1024 + 1)]"
  unfolding frames_of_def Let_def frame_loop_frameRMS
  by (simp add: init_acc_def length_normalizeBuffer)

lemma frame_count:
  "length (frameRMS (frames_of input sampleRate)) =
     (if length input \<le> 2048 then 0 else (length input - 2049) div 1024 + 1)"
  unfolding frames_of_def Let_def frame_loop_count
  by (simp add: init_acc_def length_normalizeBuffer)

text \<open>
  C3. The loop guard is \<open>i < data.length - FFT_SIZE\<close>: the loop produces one frame for
  each offset \<open>0, 1024, 2048, \<dots>\<close> whose frame ends strictly before the end of the signal.
  A frame whose end coincides with the end of the signal is not produced: a signal of
  exactly 2048 samples gives no frame at all.
\<close>

theorem exact_fit_frame_dropped:
  "length (frameRMS (frames_of input sampleRate)) =
     (if length input \<le> 2048 then 0 else (length input - 2049) div 1024 + 1)
   \<and> length (normalizeBuffer (replicate 2048 1)) = FFT_SIZE
   \<and> frameRMS (frames_of (replicate 2048 1) 44100) = []"
proof -
  have len: "length (normalizeBuffer (replicate 2048 1)) = FFT_SIZE"
    by (simp add: length_normalizeBuffer FFT_SIZE_def)
  then have "frames_of (replicate 2048 1) 44100 = init_acc"
    unfolding frames_of_def Let_def by (intro frame_loop_done) simp
  then show ?thesis
    using len frame_count [of input sampleRate] by (simp add: init_acc_def)
qed

subsection \<open>Scoring\<close>

lemma score_factor1:
  "score (factor1 a nf hds sc) =
     score sc + (if js_lt a 17000 \<and> (nf < - 75 \<or> hds) then 40
                 else if js_lt a 17000 then - 30 else - 10)"
  unfolding factor1_def by (simp split: if_splits)

lemma score_factor2: "score (factor2 s sc) = score sc + (if js_lt s 200 then 35 else - 20)"
  unfolding factor2_def by (simp split: if_splits)

lemma score_factor3: "score (factor3 hds sc) = score sc + (if hds then 25 else 0)"
  unfolding factor3_def by (simp split: if_splits)

lemma score_factor4: "score (factor4 cv sc) = score sc + (if js_lt cv 0.4 then 15 else 0)"
  unfolding factor4_def by (simp split: if_splits)

lemma score_scoring_of:
  "score (scoring_of a s nf hds cv) =
     (if js_lt a 17000 \<and> (nf < - 75 \<or> hds) then 40 else if js_lt a 17000 then - 30 else - 10)
     + (if js_lt s 200 then 35 else - 20)
     + (if hds then 25 else 0)
     + (if js_lt cv 0.4 then 15 else 0)"
  unfolding scoring_of_def score_factor1 score_factor2 score_factor3 score_factor4
  by (simp add: init_scoring_def)

lemma score_scoring_of_Fin:
  "score (scoring_of (Fin a) (Fin s) nf hds cv) =
     (if a < 17000 \<and> (nf < - 75 \<or> hds) then 40 else if a < 17000 then - 30 else - 10)
     + (if s < 200 then 35 else - 20)
     + (if hds then 25 else 0)
     + (if js_lt cv 0.4 then 15 else 0)"
  unfolding score_scoring_of js_lt.simps by (rule refl)

lemma classify_AI: "classify sc = AI_Generated_Voice \<longleftrightarrow> sc > 35"
  by (simp add: classify_def)

lemma classification_analyze:
  "classification (analyzeAudioSignal input sampleRate) = classify (score_of input sampleRate)"
  unfolding analyzeAudioSignal_def aggregate_and_classify_def score_of_def Let_def by simp

text \<open>
  C2. For every statistics tuple the score is the sum of the four factor contributions
  of the table, starting from 0; the label is AI exactly when the score exceeds 35; and
  the label of an analysis is the label of the score of its statistics. A coefficient
  of variation that is not a number compares false with 0.4. The table holds as well
  when the rolloff mean or deviation is not a finite number, with the comparison of
  the language (false on a value that is not a number).
\<close>

theorem score_table:
  "score (scoring_of (Fin avgRolloff) (Fin stdRolloff) noiseFloor hasDigitalSilence rmsCV) =
     (if avgRolloff < 17000 \<and> (noiseFloor < - 75 \<or> hasDigitalSilence) then 40
      else if avgRolloff < 17000 then - 30 else - 10)
     + (if stdRolloff < 200 then 35 else - 20)
     + (if hasDigitalSilence then 25 else 0)
     + (if js_lt rmsCV 0.4 then 15 else 0)
   \<and> score (scoring_of avgR stdR noiseFloor hasDigitalSilence rmsCV) =
     (if js_lt avgR 17000 \<and> (noiseFloor < - 75 \<or> hasDigitalSilence) then 40
      else if js_lt avgR 17000 then - 30 else - 10)
     + (if js_lt stdR 200 then 35 else - 20)
     + (if hasDigitalSilence then 25 else 0)
     + (if js_lt rmsCV 0.4 then 15 else 0)
   \<and> (classify (score (scoring_of avgR stdR noiseFloor hasDigitalSilence rmsCV))
          = AI_Generated_Voice
        \<longleftrightarrow> score (scoring_of avgR stdR noiseFloor hasDigitalSilence rmsCV) > 35)
   \<and> classification (analyzeAudioSignal input sampleRate) = classify (score_of input sampleRate)"
  using score_scoring_of score_scoring_of_Fin classify_AI classification_analyze by blast

lemma js_round_of_int: "js_round (of_int n) = n"
  by (simp add: js_round_def)

lemma confidence_analyze:
  "confidence (analyzeAudioSignal input sampleRate) = 60 + min 39 \<bar>score_of input sampleRate\<bar>"
  unfolding analyzeAudioSignal_def aggregate_and_classify_def score_of_def confidence_of_def Let_def
  by (simp only: js_round_of_int AnalysisResult.simps)

text \<open>
  C7. The reported confidence is \<open>60 + min(39, |score|)\<close>; the score is an integer, so
  rounding changes nothing; the confidence lies between 60 and 99.
\<close>

theorem confidence_bounds:
  "confidence (analyzeAudioSignal input sampleRate) = 60 + min 39 \<bar>score_of input sampleRate\<bar>
   \<and> 60 \<le> confidence (analyzeAudioSignal input sampleRate)
   \<and> confidence (analyzeAudioSignal input sampleRate) \<le> 99"
  unfolding confidence_analyze by simp

subsection \<open>Signals shorter than one frame\<close>

lemma frames_of_short: "length input < 2048 \<Longrightarrow> frames_of input sampleRate = init_acc"
  by (simp add: frames_of_def length_normalizeBuffer frame_loop_done FFT_SIZE_def)

text \<open>
  Of an empty array the sum is 0 and the count 0; the divisor \<open>length || 1\<close> is then 1 and
  the quotient the number 0. The coefficient of variation has no such fallback on its
  last division: it is \<open>0 / 0\<close>.
\<close>

lemma mean_or1_Nil: "mean_or1 [] = Fin 0"
  by (simp add: mean_or1_def or1_def js_div_def)

lemma var_or1_Nil: "var_or1 [] avg = Fin 0"
  by (simp add: var_or1_def or1_def js_div_def)

lemma init_acc_stats:
  "avgRolloff_of init_acc = Fin 0" "stdRolloff_of init_acc = Fin 0"
  "avgCentroid_of init_acc = Fin 0" "rmsCV_of init_acc = NaN"
  by (simp_all add: avgRolloff_of_def stdRolloff_of_def avgCentroid_of_def rmsCV_of_def
      init_acc_def mean_or1_Nil var_or1_Nil js_div_def)

lemma noise_floor_ge_1: "1 \<le> x \<Longrightarrow> 0 \<le> 20 * log 10 x"
  by simp

lemma sentinel_noise_floor:
  "noiseFloorDb_of init_acc = 20 * log 10 (1 + 1 / 10 ^ 9)" "0 \<le> noiseFloorDb_of init_acc"
proof -
  show eq: "noiseFloorDb_of init_acc = 20 * log 10 (1 + 1 / 10 ^ 9)"
    by (simp add: noiseFloorDb_of_def init_acc_def)
  have "0 \<le> 20 * log 10 (1 + 1 / 10 ^ 9 :: real)"
    by (rule noise_floor_ge_1) simp
  then show "0 \<le> noiseFloorDb_of init_acc"
    by (simp only: eq)
qed

lemma sentinel_noise_floor_small: "noiseFloorDb_of init_acc < 1 / 2"
proof -
  have "ln (1 + 1 / 10 ^ 9 :: real) \<le> 1 / 10 ^ 9"
    by (rule ln_add_one_self_le_self) simp
  moreover have "1 \<le> ln (10 :: real)"
  proof -
    have "exp (1 :: real) \<le> 3" by (rule exp_le)
    then have "exp (1 :: real) \<le> 10" by simp
    then have "ln (exp (1 :: real)) \<le> ln 10" by (subst ln_le_cancel_iff) simp_all
    then show ?thesis by simp
  qed
  ultimately have "ln (1 + 1 / 10 ^ 9 :: real) / ln 10 \<le> 1 / 10 ^ 9 / 1"
    by (intro frac_le) simp_all
  then have "log 10 (1 + 1 / 10 ^ 9 :: real) \<le> 1 / 10 ^ 9"
    by (simp add: log_def)
  then show ?thesis
    unfolding sentinel_noise_floor(1) by simp
qed

lemma sentinel_noise_floor_round: "js_round (noiseFloorDb_of init_acc) = 0"
  unfolding js_round_def using sentinel_noise_floor(2) sentinel_noise_floor_small
  by (intro floor_unique) simp_all

lemma score_short:
  assumes "length input < 2048"
  shows "score_of input sampleRate =
    (if hasDigitalSilence_of (normalizeBuffer input) then 100 else 5)"
proof -
  have nf: "\<not> noiseFloorDb_of init_acc < - 75"
    using sentinel_noise_floor(2) by linarith
  show ?thesis
    unfolding score_of_def Let_def frames_of_short [OF assms] score_scoring_of init_acc_stats
    using nf by simp
qed

lemma metrics_short:
  assumes "length input < 2048"
  shows "metrics (analyzeAudioSignal input sampleRate) =
    \<lparr>noiseFloorDb = 0, frequencyCutoffHz = Fin 0, harmonicRegularityScore = Fin 100,
     energyVariationScore = NaN,
     breathingArtifactsDetected = (\<not> hasDigitalSilence_of (normalizeBuffer input))\<rparr>"
proof -
  have nf: "noiseFloorDb_of init_acc > - 70"
    using sentinel_noise_floor(2) by linarith
  have r: "js_round 0 = 0" "js_round 100 = 100"
    using js_round_of_int [of 0] js_round_of_int [of 100] by simp_all
  show ?thesis
    unfolding analyzeAudioSignal_def aggregate_and_classify_def Let_def
      frames_of_short [OF assms] init_acc_stats sentinel_noise_floor_round
    using nf by (simp add: js_sub_def js_div_def r)
qed

text \<open>
  C9. For a signal shorter than 2048 samples the frame loop does no iteration: the
  accumulators keep their initial values, the frame count is 0, and the rolloff mean, the
  rolloff deviation and the centroid mean are the number 0 through the \<open>length || 1\<close>
  divisor (a division of the empty sum by the count itself would not give a number). No
  step of this path can raise: every reduction is given an initial value and a division
  by zero yields a value. The analysis returns a result whose label and confidence depend
  on the digital-silence flag alone, and whose metrics are 0 dB, cutoff 0, regularity 100
  and an energy variation that is not a number.
\<close>

theorem short_signal_defaults:
  assumes "length input < 2048"
  shows "frames_of input sampleRate = init_acc
    \<and> length (frameRMS (frames_of input sampleRate)) = 0
    \<and> length (frameRolloffs (frames_of input sampleRate)) = 0
    \<and> length (frameCentroids (frames_of input sampleRate)) = 0
    \<and> avgRolloff_of (frames_of input sampleRate) = Fin 0
    \<and> stdRolloff_of (frames_of input sampleRate) = Fin 0
    \<and> avgCentroid_of (frames_of input sampleRate) = Fin 0
    \<and> classification (analyzeAudioSignal input sampleRate) =
        (if hasDigitalSilence_of (normalizeBuffer input) then AI_Generated_Voice else Human_Voice)
    \<and> confidence (analyzeAudioSignal input sampleRate) =
        (if hasDigitalSilence_of (normalizeBuffer input) then 99 else 65)
    \<and> metrics (analyzeAudioSignal input sampleRate) =
        \<lparr>noiseFloorDb = 0, frequencyCutoffHz = Fin 0, harmonicRegularityScore = Fin 100,
         energyVariationScore = NaN,
         breathingArtifactsDetected = (\<not> hasDigitalSilence_of (normalizeBuffer input))\<rparr>"
proof -
  have "frameRMS init_acc = []" "frameRolloffs init_acc = []" "frameCentroids init_acc = []"
    by (simp_all add: init_acc_def)
  then show ?thesis
    by (simp add: frames_of_short [OF assms] init_acc_stats classification_analyze
        confidence_analyze score_short [OF assms] classify_def metrics_short [OF assms])
qed

theorem short_signal_defaults_witness:
  "length [1 :: real, 0, 0] < 2048
   \<and> frames_of [1, 0, 0] 44100 = init_acc
   \<and> avgRolloff_of (frames_of [1, 0, 0] 44100) = Fin 0
   \<and> stdRolloff_of (frames_of [1, 0, 0] 44100) = Fin 0
   \<and> avgCentroid_of (frames_of [1, 0, 0] 44100) = Fin 0
   \<and> frequencyCutoffHz (metrics (analyzeAudioSignal [1, 0, 0] 44100)) = Fin 0"
  using short_signal_defaults [of "[1, 0, 0]" 44100] by (simp add: init_acc_stats)

subsection \<open>Noise floor\<close>

lemma normalizeBuffer_bound:
  assumes f: "\<forall>x\<in>set input. is_float32 x" and x: "x \<in> set (normalizeBuffer input)"
  shows "\<bar>x\<bar> \<le> 0.95"
proof (cases "maxPeak_of input = 0")
  case True
  then have "x = 0"
    using x maxPeak_of_zero [of input x] by (simp add: normalizeBuffer_silent)
  then show ?thesis by simp
next
  case False
  have "\<bar>x\<bar> \<le> Max (abs ` set (normalizeBuffer input))"
    using x by (intro Max_ge) simp_all
  then have "\<bar>x\<bar> \<le> 15938355 / 2 ^ 24"
    unfolding normalizeBuffer_Max [OF f False] .
  then show ?thesis by simp
qed

lemma sum_squares_bound:
  "(\<And>s. s \<in> set chunk \<Longrightarrow> \<bar>s\<bar> \<le> c) \<Longrightarrow> (\<Sum>s\<leftarrow>chunk. s * s) \<le> real (length chunk) * (c * c)"
proof (induction chunk)
  case Nil
  then show ?case by simp
next
  case (Cons a chunk)
  have "\<bar>a\<bar> \<le> c" using Cons.prems by simp
  then have "\<bar>a\<bar> * \<bar>a\<bar> \<le> c * c"
    by (intro mult_mono) simp_all
  then have "a * a \<le> c * c" by simp
  moreover have "(\<Sum>s\<leftarrow>chunk. s * s) \<le> real (length chunk) * (c * c)"
    using Cons by simp
  ultimately show ?case by (simp add: algebra_simps)
qed

lemma rms_of_nonneg: "0 \<le> rms_of chunk"
  unfolding rms_of_def Let_def
  by (intro real_sqrt_ge_zero divide_nonneg_nonneg sum_list_nonneg) auto

lemma rms_of_bound:
  assumes "\<And>s. s \<in> set chunk \<Longrightarrow> \<bar>s\<bar> \<le> 0.95" and "length chunk \<le> FFT_SIZE"
  shows "rms_of chunk \<le> 0.95"
proof -
  have "(\<Sum>s\<leftarrow>chunk. s * s) \<le> real (length chunk) * (0.95 * 0.95)"
    using assms(1) by (rule sum_squares_bound)
  also have "\<dots> \<le> real FFT_SIZE * (0.95 * 0.95)"
    using assms(2) by (intro mult_right_mono) simp_all
  finally have "(\<Sum>s\<leftarrow>chunk. s * s) / real FFT_SIZE \<le> 0.95 * 0.95"
    by (simp add: FFT_SIZE_def field_simps)
  then have "sqrt ((\<Sum>s\<leftarrow>chunk. s * s) / real FFT_SIZE) \<le> sqrt (0.95 * 0.95)"
    by (rule real_sqrt_le_mono)
  moreover have "sqrt (0.95 * 0.95) = (0.95 :: real)"
    by (subst real_sqrt_abs2) simp
  ultimately show ?thesis
    unfolding rms_of_def Let_def by (simp only:)
qed

lemma slice_subset: "set (slice xs b e) \<subseteq> set xs"
  unfolding slice_def by (meson set_take_subset set_drop_subset subset_trans)

lemma length_slice_le: "length (slice xs b (b + n)) \<le> n"
  by (simp add: slice_def)

lemma length_slice_frame:
  "int i < int (length xs) - int n \<Longrightarrow> length (slice xs i (i + n)) = n"
  by (simp add: slice_def)

lemma frame_rms_lt_1:
  assumes "\<forall>x\<in>set input. is_float32 x"
  shows "rms_of (slice (normalizeBuffer input) i (i + FFT_SIZE)) < 1"
proof -
  have "rms_of (slice (normalizeBuffer input) i (i + FFT_SIZE)) \<le> 0.95"
    using slice_subset [of "normalizeBuffer input" i "i + FFT_SIZE"]
      normalizeBuffer_bound [OF assms]
    by (intro rms_of_bound length_slice_le) blast
  then show ?thesis by simp
qed

lemma frame_loop_invariant:
  assumes "P st"
    and "\<And>i st. P st \<Longrightarrow> int i < int (length data) - int FFT_SIZE
           \<Longrightarrow> P (process_frame B (slice data i (i + FFT_SIZE)) st)"
  shows "P (frame_loop data B i st)"
  using assms
proof (induction data B i st rule: frame_loop.induct)
  case (1 data B i st)
  show ?case
  proof (cases "int i < int (length data) - int FFT_SIZE")
    case True
    have "P (process_frame B (slice data i (i + FFT_SIZE)) st)"
      using "1.prems"(1) True by (rule "1.prems"(2))
    then have "P (frame_loop data B (i + HOP_SIZE)
        (process_frame B (slice data i (i + FFT_SIZE)) st))"
      using "1.prems"(2) by (intro "1.IH" [OF True]) 
    then show ?thesis
      using True by (subst frame_loop.simps) simp
  next
    case False
    then show ?thesis
      using "1.prems" by (subst frame_loop.simps) simp
  qed
qed

lemma qualifying_Nil: "qualifying [] = {}"
  by (simp add: qualifying_def)

lemma qualifying_snoc:
  "qualifying (rs @ [r]) = (if r > 0.00001 then insert r (qualifying rs) else qualifying rs)"
  by (auto simp: qualifying_def)

lemma finite_qualifying: "finite (qualifying rs)"
  by (simp add: qualifying_def)

lemma min_inv_init: "min_inv init_acc"
  by (simp add: min_inv_def init_acc_def qualifying_Nil)

lemma min_inv_rms_update:
  assumes inv: "min_inv st" and lt: "rms < 1"
  shows "min_inv (rms_update rms st)"
proof -
  let ?Q = "qualifying (frameRMS st)"
  have sub: "?Q \<subseteq> {r. r < 1}" and m: "minGlobalRMS st = (if ?Q = {} then 1 else Min ?Q)"
    using inv by (simp_all add: min_inv_def)
  show ?thesis
  proof (cases "rms > 0.00001")
    case False
    then have "qualifying (frameRMS (rms_update rms st)) = ?Q"
      and "minGlobalRMS (rms_update rms st) = minGlobalRMS st"
      by (simp_all add: rms_update_def Let_def qualifying_snoc)
    then show ?thesis
      using sub m by (simp add: min_inv_def)
  next
    case True
    then have Q': "qualifying (frameRMS (rms_update rms st)) = insert rms ?Q"
      by (simp add: rms_update_def Let_def qualifying_snoc)
    have m': "minGlobalRMS (rms_update rms st) = min rms (minGlobalRMS st)"
      using True by (simp add: rms_update_def Let_def min_def)
    have "min rms (minGlobalRMS st) = Min (insert rms ?Q)"
    proof (cases "?Q = {}")
      case True
      then show ?thesis using m lt by simp
    next
      case False
      then show ?thesis using m finite_qualifying [of "frameRMS st"] by (simp add: Min_insert)
    qed
    then show ?thesis
      unfolding min_inv_def Q' m' using sub lt by simp
  qed
qed

lemma min_inv_spectral_update: "min_inv st \<Longrightarrow> min_inv (spectral_update B spectrum st)"
  by (simp add: min_inv_def spectral_update_def)

lemma min_inv_process_frame:
  "min_inv st \<Longrightarrow> rms_of chunk < 1 \<Longrightarrow> min_inv (process_frame B chunk st)"
  by (simp add: process_frame_def Let_def min_inv_rms_update min_inv_spectral_update)

lemma min_inv_frames_of:
  assumes "\<forall>x\<in>set input. is_float32 x"
  shows "min_inv (frames_of input sampleRate)"
  unfolding frames_of_def Let_def
  by (rule frame_loop_invariant [where P = min_inv])
    (simp_all add: min_inv_init min_inv_process_frame frame_rms_lt_1 [OF assms])

text \<open>Two signals of 2049 samples: all ones, and silence.\<close>

lemma normalizeBuffer_ones:
  "normalizeBuffer (replicate 2049 1) = replicate 2049 (15938355 / 2 ^ 24)"
proof -
  have "maxPeak_of (replicate 2049 1) = 1"
    by (simp add: maxPeak_of_Max)
  then show ?thesis
    by (simp add: normalizeBuffer_def)
qed

lemma normalizeBuffer_zeros: "normalizeBuffer (replicate 2049 0) = replicate 2049 0"
  by (rule normalizeBuffer_silent) (simp add: maxPeak_of_Max)

lemma frame_energy_constant:
  "sqrt ((\<Sum>s\<leftarrow>take 2048 (drop (0 * 1024) (replicate 2049 v)). s * s) / 2048) = \<bar>v\<bar>"
proof -
  have "(\<Sum>s\<leftarrow>replicate 2048 v. s * s) = 2048 * (v * v)"
    by (simp add: sum_list_replicate)
  then show ?thesis by simp
qed

lemma one_frame:
  "(if length (replicate 2049 (v :: real)) \<le> 2048 then 0
    else (length (replicate 2049 v) - 2049) div 1024 + 1) = 1"
  "[0..<1] = [0 :: nat]"
  by simp_all

lemma qualifying_single:
  "qualifying [r] = (if r > 0.00001 then {r} else {})"
  by (auto simp: qualifying_def)



subsection \<open>Spectral flatness\<close>

lemma length_magnitudes: "length (magnitudes n out) = n div 2"
  by (cases out) (simp add: magnitudes_def)

lemma magnitudes_nonneg: "m \<in> set (magnitudes n out) \<Longrightarrow> 0 \<le> m"
  by (cases out) (auto simp: magnitudes_def)

lemma length_getMagnitudeSpectrum: "length (getMagnitudeSpectrum re) = length re div 2"
  by (simp add: getMagnitudeSpectrum_def Let_def length_magnitudes)

lemma getMagnitudeSpectrum_nonneg: "m \<in> set (getMagnitudeSpectrum re) \<Longrightarrow> 0 \<le> m"
  unfolding getMagnitudeSpectrum_def Let_def by (rule magnitudes_nonneg)

lemma log_sum_bound:
  fixes A e :: real
  assumes "0 < A" "0 < e" "\<And>m. m \<in> set xs \<Longrightarrow> 0 \<le> m"
  shows "(\<Sum>m\<leftarrow>xs. ln (m + e)) \<le> real (length xs) * (ln A - 1) + (\<Sum>m\<leftarrow>xs. m + e) / A"
  using assms(3)
proof (induction xs)
  case Nil
  then show ?case by simp
next
  case (Cons a xs)
  have pos: "0 < a + e" using Cons.prems [of a] assms(2) by simp
  have "ln ((a + e) / A) \<le> (a + e) / A - 1"
    using pos assms(1) by (intro ln_le_minus_one) simp
  then have head: "ln (a + e) \<le> (ln A - 1) + (a + e) / A"
    using pos assms(1) by (simp add: ln_div)
  have tail: "(\<Sum>m\<leftarrow>xs. ln (m + e)) \<le> real (length xs) * (ln A - 1) + (\<Sum>m\<leftarrow>xs. m + e) / A"
    using Cons by simp
  show ?case
    using head tail by (simp add: algebra_simps add_divide_distrib)
qed

lemma sum_shift_pos:
  fixes e :: real
  assumes "0 < e" "xs \<noteq> []" "\<And>m. m \<in> set xs \<Longrightarrow> 0 \<le> m"
  shows "0 < (\<Sum>m\<leftarrow>xs. m + e)"
proof -
  have "(\<Sum>m\<leftarrow>xs. e) \<le> (\<Sum>m\<leftarrow>xs. m + e)"
    using assms(3) by (intro sum_list_mono) simp
  moreover have "0 < (\<Sum>m\<leftarrow>xs. e)"
    using assms(1,2) by (simp add: sum_list_triv)
  ultimately show ?thesis by linarith
qed

lemma flatness_of_range:
  assumes ne: "spectrum \<noteq> []" and nonneg: "\<And>m. m \<in> set spectrum \<Longrightarrow> 0 \<le> m"
  shows "0 < flatness_of spectrum" and "flatness_of spectrum \<le> 1"
proof -
  define e :: real where "e = 1 / 10 ^ 10"
  define n where "n = real (length spectrum)"
  define A where "A = (\<Sum>m\<leftarrow>spectrum. m + e) / n"
  define G where "G = exp ((\<Sum>m\<leftarrow>spectrum. ln (m + e)) / n)"
  have e: "0 < e" by (simp add: e_def)
  have n: "0 < n" using ne by (simp add: n_def)
  have S: "0 < (\<Sum>m\<leftarrow>spectrum. m + e)"
    using e ne nonneg by (rule sum_shift_pos)
  have A: "0 < A"
    unfolding A_def using S n by simp
  have G: "0 < G" by (simp add: G_def)
  have flat: "flatness_of spectrum = G / (A + e)"
    by (simp add: flatness_of_def Let_def G_def A_def e_def n_def)
  have "(\<Sum>m\<leftarrow>spectrum. ln (m + e)) \<le> n * (ln A - 1) + (\<Sum>m\<leftarrow>spectrum. m + e) / A"
    unfolding n_def using A e nonneg by (rule log_sum_bound)
  also have "(\<Sum>m\<leftarrow>spectrum. m + e) / A = n"
    using S n by (simp add: A_def)
  finally have "(\<Sum>m\<leftarrow>spectrum. ln (m + e)) \<le> n * ln A"
    by (simp add: algebra_simps)
  then have "(\<Sum>m\<leftarrow>spectrum. ln (m + e)) / n \<le> ln A"
    using n by (simp add: field_simps)
  then have "G \<le> A"
    unfolding G_def using A by (metis exp_le_cancel_iff exp_ln)
  then have "G \<le> A + e" using e by linarith
  then show "flatness_of spectrum \<le> 1"
    unfolding flat using A e by (simp add: field_simps)
  show "0 < flatness_of spectrum"
    unfolding flat using G A e by simp
qed

lemma frame_flatness_range:
  "(\<forall>f\<in>set (frameFlatness (frames_of input sampleRate)). 0 < f \<and> f \<le> 1)"
  unfolding frames_of_def Let_def
proof (rule frame_loop_invariant [where P = "\<lambda>st. \<forall>f\<in>set (frameFlatness st). 0 < f \<and> f \<le> 1"])
  show "\<forall>f\<in>set (frameFlatness init_acc). 0 < f \<and> f \<le> 1"
    by (simp add: init_acc_def)
next
  fix i and st :: frame_acc
  let ?chunk = "slice (normalizeBuffer input) i (i + FFT_SIZE)"
  assume inv: "\<forall>f\<in>set (frameFlatness st). 0 < f \<and> f \<le> 1"
    and i: "int i < int (length (normalizeBuffer input)) - int FFT_SIZE"
  have "length ?chunk = FFT_SIZE" using i by (rule length_slice_frame)
  then have "getMagnitudeSpectrum ?chunk \<noteq> []"
    using length_getMagnitudeSpectrum [of ?chunk] by (auto simp: FFT_SIZE_def)
  then have "0 < flatness_of (getMagnitudeSpectrum ?chunk) \<and> flatness_of (getMagnitudeSpectrum ?chunk) \<le> 1"
    using flatness_of_range [of "getMagnitudeSpectrum ?chunk"] getMagnitudeSpectrum_nonneg by blast
  moreover have "frameFlatness (rms_update r st) = frameFlatness st" for r
    by (simp add: rms_update_def Let_def)
  ultimately show "\<forall>f\<in>set (frameFlatness (process_frame (sampleRate / real FFT_SIZE) ?chunk st)). 0 < f \<and> f \<le> 1"
    using inv by (simp add: process_frame_def Let_def spectral_update_def)
qed

lemma rms_of_replicate_half: "rms_of (replicate 2048 (1 / 2)) = 1 / 2"
proof -
  have "(\<Sum>s\<leftarrow>replicate 2048 (1 / 2 :: real). s * s) = 512"
    by (simp add: map_replicate_const sum_list_replicate)
  then have "rms_of (replicate 2048 (1 / 2)) = sqrt ((1 / 2) * (1 / 2))"
    by (simp add: rms_of_def FFT_SIZE_def)
  also have "\<dots> = 1 / 2"
    by (subst real_sqrt_abs2) simp
  finally show ?thesis .
qed

text \<open>
  C8. For a frame (2048 samples) that passes the voicing gate, the loop body appends the
  spectral flatness of the frame's magnitude spectrum, which is the stated quotient of a
  geometric and an arithmetic mean over the 1024 bins, is strictly positive and is at
  most 1. (Exact real arithmetic.) Lemma \<open>frame_flatness_range\<close> is the same bound for
  every entry the analysis of a signal collects.
\<close>

theorem flatness_in_unit_interval:
  assumes "length chunk = FFT_SIZE" and "rms_of chunk > 0.01"
  shows "frameFlatness (process_frame B chunk st) =
      frameFlatness st @ [flatness_of (getMagnitudeSpectrum chunk)]
    \<and> flatness_of (getMagnitudeSpectrum chunk) =
        exp ((\<Sum>m\<leftarrow>getMagnitudeSpectrum chunk. ln (m + 1 / 10 ^ 10)) / 1024)
          / ((\<Sum>m\<leftarrow>getMagnitudeSpectrum chunk. m + 1 / 10 ^ 10) / 1024 + 1 / 10 ^ 10)
    \<and> 0 < flatness_of (getMagnitudeSpectrum chunk)
    \<and> flatness_of (getMagnitudeSpectrum chunk) \<le> 1"
proof -
  have len: "length (getMagnitudeSpectrum chunk) = 1024"
    using assms(1) by (simp add: length_getMagnitudeSpectrum FFT_SIZE_def)
  then have ne: "getMagnitudeSpectrum chunk \<noteq> []" by auto
  have push: "frameFlatness (process_frame B chunk st) =
      frameFlatness st @ [flatness_of (getMagnitudeSpectrum chunk)]"
    using assms(2) by (simp add: process_frame_def Let_def spectral_update_def rms_update_def)
  have formula: "flatness_of (getMagnitudeSpectrum chunk) =
        exp ((\<Sum>m\<leftarrow>getMagnitudeSpectrum chunk. ln (m + 1 / 10 ^ 10)) / 1024)
          / ((\<Sum>m\<leftarrow>getMagnitudeSpectrum chunk. m + 1 / 10 ^ 10) / 1024 + 1 / 10 ^ 10)"
    unfolding flatness_of_def Let_def len by simp
  have "0 < flatness_of (getMagnitudeSpectrum chunk)"
    using ne getMagnitudeSpectrum_nonneg by (rule flatness_of_range(1))
  moreover have "flatness_of (getMagnitudeSpectrum chunk) \<le> 1"
    using ne getMagnitudeSpectrum_nonneg by (rule flatness_of_range(2))
  ultimately show ?thesis
    using push formula by blast
qed

theorem flatness_in_unit_interval_witness:
  "length (replicate 2048 (1 / 2 :: real)) = FFT_SIZE
   \<and> rms_of (replicate 2048 (1 / 2)) > 0.01
   \<and> 0 < flatness_of (getMagnitudeSpectrum (replicate 2048 (1 / 2)))
   \<and> flatness_of (getMagnitudeSpectrum (replicate 2048 (1 / 2))) \<le> 1"
  using flatness_in_unit_interval [of "replicate 2048 (1 / 2)" 1 init_acc]
  by (simp add: rms_of_replicate_half FFT_SIZE_def)

subsection \<open>The transform computes the discrete Fourier transform\<close>

lemma sum_even_odd:
  fixes f :: "nat \<Rightarrow> complex"
  shows "(\<Sum>j<2 * h. f j) = (\<Sum>i<h. f (2 * i)) + (\<Sum>i<h. f (2 * i + 1))"
  by (induction h) (simp_all add: algebra_simps)

lemma cis_neg_period: "cis (- (2 * pi * real i)) = 1"
proof -
  have "cis (2 * pi * real i) = 1"
    by (rule cis_multiple_2pi) simp
  then have "inverse (cis (2 * pi * real i)) = 1" by simp
  then show ?thesis by (simp only: cis_inverse)
qed

lemma cis_neg_pi: "cis (- pi) = - 1"
proof -
  have "inverse (cis pi) = - 1" by simp
  then show ?thesis by (simp only: cis_inverse)
qed

lemma twiddle_even:
  assumes "0 < h"
  shows "cis (- 2 * pi * real (2 * i) * real k / real (2 * h)) = cis (- 2 * pi * real i * real k / real h)"
  using assms by (intro arg_cong [where f = cis]) (simp add: field_simps)

lemma twiddle_odd:
  assumes "0 < h"
  shows "cis (- 2 * pi * real (2 * i + 1) * real k / real (2 * h)) =
    cis (- 2 * pi * real i * real k / real h) * cis (angle (2 * h) k)"
  unfolding cis_mult angle_def
  using assms by (intro arg_cong [where f = cis]) (simp add: field_simps)

lemma twiddle_even_shift:
  assumes "0 < h"
  shows "cis (- 2 * pi * real (2 * i) * real (k + h) / real (2 * h)) =
    cis (- 2 * pi * real i * real k / real h)"
proof -
  have "- 2 * pi * real (2 * i) * real (k + h) / real (2 * h) =
      - 2 * pi * real i * real k / real h + - (2 * pi * real i)"
    using assms by (simp add: field_simps)
  then show ?thesis
    by (simp only: cis_mult [symmetric] cis_neg_period mult_1_right)
qed

lemma twiddle_odd_shift:
  assumes "0 < h"
  shows "cis (- 2 * pi * real (2 * i + 1) * real (k + h) / real (2 * h)) =
    - (cis (- 2 * pi * real i * real k / real h) * cis (angle (2 * h) k))"
proof -
  have "- 2 * pi * real (2 * i + 1) * real (k + h) / real (2 * h) =
      ((- 2 * pi * real i * real k / real h + angle (2 * h) k) + - (2 * pi * real i)) + - pi"
    unfolding angle_def using assms by (simp add: field_simps)
  then show ?thesis
    by (simp only: cis_mult [symmetric] cis_neg_period cis_neg_pi) simp
qed

lemma dft_split:
  assumes len: "length x = 2 * h" and h: "0 < h"
  defines "xe \<equiv> map (\<lambda>i. x ! (2 * i)) [0..<h]"
    and "xo \<equiv> map (\<lambda>i. x ! (2 * i + 1)) [0..<h]"
  shows "dft_cis x k = dft_cis xe k + cis (angle (2 * h) k) * dft_cis xo k"
    and "dft_cis x (k + h) = dft_cis xe k - cis (angle (2 * h) k) * dft_cis xo k"
proof -
  have lxe: "length xe = h" and lxo: "length xo = h"
    by (simp_all add: xe_def xo_def)
  have dxe: "dft_cis xe k = (\<Sum>i<h. x ! (2 * i) * cis (- 2 * pi * real i * real k / real h))"
    unfolding dft_cis_def lxe by (intro sum.cong refl) (simp add: xe_def)
  have dxo: "dft_cis xo k = (\<Sum>i<h. x ! (2 * i + 1) * cis (- 2 * pi * real i * real k / real h))"
    unfolding dft_cis_def lxo by (intro sum.cong refl) (simp add: xo_def)
  have "dft_cis x k =
      (\<Sum>i<h. x ! (2 * i) * cis (- 2 * pi * real (2 * i) * real k / real (2 * h)))
      + (\<Sum>i<h. x ! (2 * i + 1) * cis (- 2 * pi * real (2 * i + 1) * real k / real (2 * h)))"
    unfolding dft_cis_def len by (rule sum_even_odd)
  also have "\<dots> = dft_cis xe k + cis (angle (2 * h) k) * dft_cis xo k"
    unfolding dxe dxo twiddle_even [OF h] twiddle_odd [OF h] sum_distrib_left
    by (simp add: mult_ac)
  finally show "dft_cis x k = dft_cis xe k + cis (angle (2 * h) k) * dft_cis xo k" .
  have "dft_cis x (k + h) =
      (\<Sum>i<h. x ! (2 * i) * cis (- 2 * pi * real (2 * i) * real (k + h) / real (2 * h)))
      + (\<Sum>i<h. x ! (2 * i + 1) * cis (- 2 * pi * real (2 * i + 1) * real (k + h) / real (2 * h)))"
    unfolding dft_cis_def len by (rule sum_even_odd)
  also have "\<dots> = dft_cis xe k - cis (angle (2 * h) k) * dft_cis xo k"
    unfolding dxe dxo twiddle_even_shift [OF h] twiddle_odd_shift [OF h] sum_distrib_left
    by (simp add: mult_ac sum_negf)
  finally show "dft_cis x (k + h) = dft_cis xe k - cis (angle (2 * h) k) * dft_cis xo k" .
qed

lemma length_evens: "length (evens xs h) = h" and length_odds: "length (odds xs h) = h"
  by (simp_all add: evens_def odds_def)

lemma length_cplx: "length (cplx re im) = length re"
  by (simp add: cplx_def)

lemma nth_cplx: "k < length re \<Longrightarrow> cplx re im ! k = Complex (re ! k) (im ! k)"
  by (simp add: cplx_def)

lemma cplx_evens:
  "length re = 2 * h \<Longrightarrow>
     cplx (evens re h) (evens im h) = map (\<lambda>i. cplx re im ! (2 * i)) [0..<h]"
  by (simp add: cplx_def evens_def)

lemma cplx_odds:
  "length re = 2 * h \<Longrightarrow>
     cplx (odds re h) (odds im h) = map (\<lambda>i. cplx re im ! (2 * i + 1)) [0..<h]"
  by (simp add: cplx_def odds_def)

lemma term_complex:
  "Complex (termReal n oddReal oddImag k) (termImag n oddReal oddImag k) =
     cis (angle n k) * Complex (oddReal ! k) (oddImag ! k)"
  by (simp add: termReal_def termImag_def cis.ctr complex_eq_iff)

lemma Complex_add: "Complex (a + c) (b + d) = Complex a b + Complex c d"
  and Complex_diff: "Complex (a - c) (b - d) = Complex a b - Complex c d"
  by (simp_all add: complex_eq_iff)

lemma butterfly_length:
  "length inputReal = 2 * h \<Longrightarrow> length inputImag = 2 * h \<Longrightarrow>
     length (fst (butterfly n h (inputReal, inputImag) ev od)) = 2 * h
     \<and> length (snd (butterfly n h (inputReal, inputImag) ev od)) = 2 * h"
  by (cases ev; cases od) (simp add: butterfly_def)

lemma butterfly_lo:
  assumes "k < h"
  shows "Complex (fst (butterfly n h inp (evenReal, evenImag) (oddReal, oddImag)) ! k)
           (snd (butterfly n h inp (evenReal, evenImag) (oddReal, oddImag)) ! k) =
         Complex (evenReal ! k) (evenImag ! k)
           + cis (angle n k) * Complex (oddReal ! k) (oddImag ! k)"
  using assms
  by (cases inp) (simp add: butterfly_def nth_append term_complex [symmetric] Complex_add Complex_diff)

lemma butterfly_hi:
  assumes "k < h"
  shows "Complex (fst (butterfly n h inp (evenReal, evenImag) (oddReal, oddImag)) ! (k + h))
           (snd (butterfly n h inp (evenReal, evenImag) (oddReal, oddImag)) ! (k + h)) =
         Complex (evenReal ! k) (evenImag ! k)
           - cis (angle n k) * Complex (oddReal ! k) (oddImag ! k)"
  using assms
  by (cases inp) (simp add: butterfly_def nth_append term_complex [symmetric] Complex_add Complex_diff)

lemma dft_single: "length x = 1 \<Longrightarrow> dft_cis x 0 = x ! 0"
  by (simp add: dft_cis_def)

lemma fft_base: "length inputReal \<le> 1 \<Longrightarrow> fft (inputReal, inputImag) = (inputReal, inputImag)"
  by (subst fft.simps) simp

lemma fft_step:
  "\<not> length inputReal \<le> 1 \<Longrightarrow>
     fft (inputReal, inputImag) =
       butterfly (length inputReal) (length inputReal div 2) (inputReal, inputImag)
         (fft (evens inputReal (length inputReal div 2), evens inputImag (length inputReal div 2)))
         (fft (odds inputReal (length inputReal div 2), odds inputImag (length inputReal div 2)))"
  by (subst fft.simps) (simp add: Let_def)

lemma fft_dft:
  "length re = 2 ^ m \<Longrightarrow> length im = 2 ^ m \<Longrightarrow>
     length (fst (fft (re, im))) = 2 ^ m \<and> length (snd (fft (re, im))) = 2 ^ m
     \<and> (\<forall>k<2 ^ m. Complex (fst (fft (re, im)) ! k) (snd (fft (re, im)) ! k) = dft_cis (cplx re im) k)"
proof (induction m arbitrary: re im)
  case 0
  then have "fft (re, im) = (re, im)" by (simp add: fft_base)
  then show ?case
    using 0 by (simp add: dft_single length_cplx nth_cplx)
next
  case (Suc m)
  define h :: nat where "h = 2 ^ m"
  have h: "0 < h" by (simp add: h_def)
  have lre: "length re = 2 * h" and lim: "length im = 2 * h"
    using Suc.prems by (simp_all add: h_def)
  have half: "length re div 2 = h" by (simp add: lre)
  define ev where "ev = fft (evens re h, evens im h)"
  define od where "od = fft (odds re h, odds im h)"
  have step: "fft (re, im) = butterfly (2 * h) h (re, im) (fst ev, snd ev) (fst od, snd od)"
    using h by (subst fft_step) (simp_all add: lre ev_def od_def)
  have ev: "\<forall>k<h. Complex (fst ev ! k) (snd ev ! k) = dft_cis (cplx (evens re h) (evens im h)) k"
    unfolding ev_def h_def using Suc.IH [of "evens re (2 ^ m)" "evens im (2 ^ m)"]
    by (simp add: length_evens)
  have od: "\<forall>k<h. Complex (fst od ! k) (snd od ! k) = dft_cis (cplx (odds re h) (odds im h)) k"
    unfolding od_def h_def using Suc.IH [of "odds re (2 ^ m)" "odds im (2 ^ m)"]
    by (simp add: length_odds)
  have lx: "length (cplx re im) = 2 * h" by (simp add: length_cplx lre)
  have lo: "Complex (fst (fft (re, im)) ! k) (snd (fft (re, im)) ! k) = dft_cis (cplx re im) k"
    if "k < h" for k
    unfolding step butterfly_lo [OF that] dft_split(1) [OF lx h]
    using ev od that by (simp add: cplx_evens [OF lre] cplx_odds [OF lre])
  have hi: "Complex (fst (fft (re, im)) ! (k + h)) (snd (fft (re, im)) ! (k + h)) =
      dft_cis (cplx re im) (k + h)"
    if "k < h" for k
    unfolding step butterfly_hi [OF that] dft_split(2) [OF lx h]
    using ev od that by (simp add: cplx_evens [OF lre] cplx_odds [OF lre])
  have all: "Complex (fst (fft (re, im)) ! k) (snd (fft (re, im)) ! k) = dft_cis (cplx re im) k"
    if "k < 2 * h" for k
  proof (cases "k < h")
    case True
    then show ?thesis by (rule lo)
  next
    case False
    then have "k - h < h" and "k = (k - h) + h" using that by simp_all
    then show ?thesis using hi [of "k - h"] by simp
  qed
  have len: "length (fst (fft (re, im))) = 2 * h \<and> length (snd (fft (re, im))) = 2 * h"
    unfolding step using lre lim by (rule butterfly_length)
  show ?case
    using len all by (simp add: h_def)
qed

lemma exp_twiddle:
  "exp (- 2 * of_real pi * \<i> * of_nat j * of_nat k / of_nat n) =
     cis (- 2 * pi * real j * real k / real n)"
proof -
  have "- 2 * of_real pi * \<i> * of_nat j * of_nat k / of_nat n =
      \<i> * complex_of_real (- 2 * pi * real j * real k / real n)"
    by simp
  then show ?thesis
    by (simp only: cis_conv_exp)
qed

lemma dft_eq_cis: "dft x k = dft_cis x k"
  unfolding dft_def dft_cis_def exp_twiddle by (rule refl)

lemma length_hanning_window: "length (hanning_window re) = length re"
  by (simp add: hanning_window_def Let_def)

lemma cplx_real: "cplx xs (replicate (length xs) 0) = map complex_of_real xs"
  unfolding cplx_def by (rule nth_equalityI) (simp_all add: complex_of_real_def)

lemma magnitudes_nth:
  "j < n div 2 \<Longrightarrow> magnitudes n (re, im) ! j = cmod (Complex (re ! j) (im ! j))"
  by (simp add: magnitudes_def cmod_def power2_eq_square)

lemma getMagnitudeSpectrum_dft:
  assumes "length frame = 2 ^ m" and "j < 2 ^ m div 2"
  shows "getMagnitudeSpectrum frame ! j = cmod (dft_cis (map complex_of_real (hanning_window frame)) j)"
proof -
  let ?w = "hanning_window frame"
  let ?z = "replicate (length frame) (0 :: real)"
  have lw: "length ?w = 2 ^ m" and lz: "length ?z = 2 ^ m"
    using assms(1) by (simp_all add: length_hanning_window)
  have j: "j < 2 ^ m" using assms(2) by simp
  have "getMagnitudeSpectrum frame ! j = magnitudes (2 ^ m) (fst (fft (?w, ?z)), snd (fft (?w, ?z))) ! j"
    by (simp add: getMagnitudeSpectrum_def Let_def assms(1))
  also have "\<dots> = cmod (Complex (fst (fft (?w, ?z)) ! j) (snd (fft (?w, ?z)) ! j))"
    using assms(2) by (rule magnitudes_nth)
  also have "\<dots> = cmod (dft_cis (cplx ?w ?z) j)"
    using fft_dft [OF lw lz] j by simp
  also have "cplx ?w ?z = map complex_of_real ?w"
    using cplx_real [of ?w] by (simp add: length_hanning_window)
  finally show ?thesis .
qed

lemma fft_two: "fft ([a, b], [c, d]) = ([a + b, a - b], [c + d, c - d])"
proof -
  have e: "evens [a, b] (Suc 0) = [a]" "evens [c, d] (Suc 0) = [c]"
    "odds [a, b] (Suc 0) = [b]" "odds [c, d] (Suc 0) = [d]"
    by (simp_all add: evens_def odds_def)
  have "fft ([a, b], [c, d]) =
      butterfly (Suc (Suc 0)) (Suc 0) ([a, b], [c, d]) (fft ([a], [c])) (fft ([b], [d]))"
    by (subst fft_step) (simp_all add: e)
  also have "\<dots> = butterfly (Suc (Suc 0)) (Suc 0) ([a, b], [c, d]) ([a], [c]) ([b], [d])"
    by (simp add: fft_base)
  also have "\<dots> = ([a + b, a - b], [c + d, c - d])"
    by (simp add: butterfly_def termReal_def termImag_def angle_def)
  finally show ?thesis .
qed

lemma quarter_turn:
  "cos (angle (Suc (Suc (Suc (Suc 0)))) (Suc 0)) = 0"
  "sin (angle (Suc (Suc (Suc (Suc 0)))) (Suc 0)) = - 1"
proof -
  have "angle (Suc (Suc (Suc (Suc 0)))) (Suc 0) = - (pi / 2)"
    by (simp add: angle_def)
  then show "cos (angle (Suc (Suc (Suc (Suc 0)))) (Suc 0)) = 0"
    and "sin (angle (Suc (Suc (Suc (Suc 0)))) (Suc 0)) = - 1"
    by simp_all
qed

lemma fft_four:
  "fft ([a, b, c, d], [e, f, g, h]) =
     ([a + c + (b + d), a - c + (f - h), a + c - (b + d), a - c - (f - h)],
      [e + g + (f + h), e - g - (b - d), e + g - (f + h), e - g + (b - d)])"
proof -
  have s: "evens [a, b, c, d] (Suc (Suc 0)) = [a, c]" "evens [e, f, g, h] (Suc (Suc 0)) = [e, g]"
    "odds [a, b, c, d] (Suc (Suc 0)) = [b, d]" "odds [e, f, g, h] (Suc (Suc 0)) = [f, h]"
    by (simp_all add: evens_def odds_def)
  have "fft ([a, b, c, d], [e, f, g, h]) =
      butterfly (Suc (Suc (Suc (Suc 0)))) (Suc (Suc 0)) ([a, b, c, d], [e, f, g, h])
        (fft ([a, c], [e, g])) (fft ([b, d], [f, h]))"
    by (subst fft_step) (simp_all add: s)
  also have "\<dots> = butterfly (Suc (Suc (Suc (Suc 0)))) (Suc (Suc 0)) ([a, b, c, d], [e, f, g, h])
      ([a + c, a - c], [e + g, e - g]) ([b + d, b - d], [f + h, f - h])"
    by (simp only: fft_two)
  also have "\<dots> =
     ([a + c + (b + d), a - c + (f - h), a + c - (b + d), a - c - (f - h)],
      [e + g + (f + h), e - g - (b - d), e + g - (f + h), e - g + (b - d)])"
    by (simp add: butterfly_def termReal_def termImag_def quarter_turn)
      (simp add: angle_def)
  finally show ?thesis .
qed

lemma nth_hanning_window:
  "i < length re \<Longrightarrow>
     hanning_window re ! i = re ! i * 0.5 * (1 - cos (2 * pi * real i / (real (length re) - 1)))"
  by (simp add: hanning_window_def Let_def)

lemma cos_two_thirds_pi: "cos (2 * pi / 3) = - 1 / 2"
proof -
  have "cos (2 * pi / 3) = cos (pi - pi / 3)" by (simp add: field_simps)
  also have "\<dots> = - cos (pi / 3)" by (rule cos_pi_minus)
  finally show ?thesis by (simp add: cos_60)
qed

lemma cos_four_thirds_pi: "cos (4 * pi / 3) = - 1 / 2"
proof -
  have "cos (4 * pi / 3) = cos (pi / 3 + pi)" by (simp add: field_simps)
  also have "\<dots> = - cos (pi / 3)" by (simp only: cos_periodic_pi)
  finally show ?thesis by (simp add: cos_60)
qed

lemma hanning_window_example: "hanning_window [1, 2, 3, 4] = [0, 3 / 2, 9 / 4, 0]"
  by (simp add: hanning_window_def upt_rec numeral_eq_Suc cos_two_thirds_pi cos_four_thirds_pi)

lemma magnitudes_two:
  "n div 2 = Suc (Suc 0) \<Longrightarrow>
     magnitudes n (re, im) =
       [sqrt (re ! 0 * re ! 0 + im ! 0 * im ! 0), sqrt (re ! 1 * re ! 1 + im ! 1 * im ! 1)]"
  by (simp add: magnitudes_def)

lemma getMagnitudeSpectrum_example: "getMagnitudeSpectrum [1, 2, 3, 4] = [15 / 4, sqrt (117 / 16)]"
proof -
  have l: "length [1, 2, 3, 4 :: real] = 4" by simp
  have r: "replicate 4 (0 :: real) = [0, 0, 0, 0]" by (simp add: numeral_eq_Suc)
  have q: "sqrt (225 / 16) = 15 / 4"
    by (rule real_sqrt_unique) (simp_all add: power2_eq_square)
  have "getMagnitudeSpectrum [1, 2, 3, 4] = magnitudes 4 (fft ([0, 3 / 2, 9 / 4, 0], [0, 0, 0, 0]))"
    unfolding getMagnitudeSpectrum_def Let_def hanning_window_example l r by (rule refl)
  also have "\<dots> = magnitudes 4 ([15 / 4, - (9 / 4), 3 / 4, - (9 / 4)], [0, - (3 / 2), 0, 3 / 2])"
    by (simp add: fft_four)
  also have "\<dots> = [sqrt (225 / 16), sqrt (117 / 16)]"
    by (subst magnitudes_two) simp_all
  finally show ?thesis by (simp only: q)
qed

text \<open>The routine with exact arithmetic is the routine over the reals.\<close>

lemma exact_arith_simps [simp]:
  "to_f32 exact_arith = (\<lambda>x. x)" "to_f64 exact_arith = (\<lambda>x. x)" "m_pi exact_arith = pi"
  "m_cos exact_arith = cos" "m_sin exact_arith = sin" "m_sqrt exact_arith = sqrt"
  by (simp_all add: exact_arith_def)

lemma ieee_arith_simps [simp]:
  "to_f32 ieee_arith = fround" "to_f64 ieee_arith = fl64" "m_pi ieee_arith = fl64 pi"
  "m_cos ieee_arith = (\<lambda>x. fl64 (cos x))" "m_sin ieee_arith = (\<lambda>x. fl64 (sin x))"
  "m_sqrt ieee_arith = (\<lambda>x. fl64 (sqrt x))"
  by (simp_all add: ieee_arith_def)

lemma evens_with_exact: "evens_with exact_arith xs h = evens xs h"
  and odds_with_exact: "odds_with exact_arith xs h = odds xs h"
  by (simp_all add: evens_with_def odds_with_def evens_def odds_def)

lemma angle_with_exact: "angle_with exact_arith n k = angle n k"
  by (simp add: angle_with_def angle_def)

lemma termReal_with_exact: "termReal_with exact_arith n xr xi k = termReal n xr xi k"
  and termImag_with_exact: "termImag_with exact_arith n xr xi k = termImag n xr xi k"
  by (simp_all add: termReal_with_def termImag_with_def termReal_def termImag_def
      angle_with_exact Let_def)

lemma butterfly_with_exact: "butterfly_with exact_arith n h inp ev od = butterfly n h inp ev od"
  by (simp add: butterfly_with_def butterfly_def termReal_with_exact termImag_with_exact)

lemma fft_with_base:
  "length inputReal \<le> 1 \<Longrightarrow> fft_with ar (inputReal, inputImag) = (inputReal, inputImag)"
  by (subst fft_with.simps) simp

lemma fft_with_step:
  "\<not> length inputReal \<le> 1 \<Longrightarrow>
     fft_with ar (inputReal, inputImag) =
       butterfly_with ar (length inputReal) (length inputReal div 2) (inputReal, inputImag)
         (fft_with ar (evens_with ar inputReal (length inputReal div 2),
                       evens_with ar inputImag (length inputReal div 2)))
         (fft_with ar (odds_with ar inputReal (length inputReal div 2),
                       odds_with ar inputImag (length inputReal div 2)))"
  by (subst fft_with.simps) (simp add: Let_def)

lemma fft_with_exact: "fft_with exact_arith (re, im) = fft (re, im)"
proof (induction "length re" arbitrary: re im rule: less_induct)
  case less
  show ?case
  proof (cases "length re \<le> 1")
    case True
    then show ?thesis by (simp add: fft_base fft_with_base)
  next
    case False
    let ?h = "length re div 2"
    have lt: "?h < length re" using False by simp
    have ev: "fft_with exact_arith (evens re ?h, evens im ?h) = fft (evens re ?h, evens im ?h)"
      by (rule less) (simp add: length_evens lt)
    have od: "fft_with exact_arith (odds re ?h, odds im ?h) = fft (odds re ?h, odds im ?h)"
      by (rule less) (simp add: length_odds lt)
    show ?thesis
      unfolding fft_with_step [OF False] fft_step [OF False] evens_with_exact odds_with_exact
        ev od butterfly_with_exact
      by (rule refl)
  qed
qed

lemma hanning_window_with_exact: "hanning_window_with exact_arith re = hanning_window re"
  by (simp add: hanning_window_with_def hanning_window_def Let_def)

lemma magnitudes_with_exact: "magnitudes_with exact_arith n out = magnitudes n out"
  by (simp add: magnitudes_with_def magnitudes_def)

lemma getMagnitudeSpectrum_with_exact:
  "getMagnitudeSpectrum_with exact_arith re = getMagnitudeSpectrum re"
  by (simp add: getMagnitudeSpectrum_with_def getMagnitudeSpectrum_def Let_def
      hanning_window_with_exact magnitudes_with_exact fft_with_exact)

text \<open>Whatever the arithmetic, the routine keeps the lengths of its arrays.\<close>

lemma butterfly_with_length:
  "2 * h \<le> length inputReal \<Longrightarrow> length inputImag = length inputReal \<Longrightarrow>
     length (fst (butterfly_with ar n h (inputReal, inputImag) ev od)) = length inputReal
     \<and> length (snd (butterfly_with ar n h (inputReal, inputImag) ev od)) = length inputReal"
  by (cases ev; cases od) (simp add: butterfly_with_def)

lemma fft_with_length:
  assumes "length im = length re"
  shows "length (fst (fft_with ar (re, im))) = length re
    \<and> length (snd (fft_with ar (re, im))) = length re"
proof (cases "length re \<le> 1")
  case True
  then show ?thesis using assms by (simp add: fft_with_base)
next
  case False
  show ?thesis
    unfolding fft_with_step [OF False] using assms by (intro butterfly_with_length) simp_all
qed

lemma length_getMagnitudeSpectrum_with:
  "length (getMagnitudeSpectrum_with ar re) = length re div 2"
  by (cases "fft_with ar (hanning_window_with ar re, replicate (length re) 0)")
    (simp add: getMagnitudeSpectrum_with_def Let_def magnitudes_with_def)

text \<open>
  Two single-precision samples whose sum is not a single-precision number: the store
  into the array rounds \<open>1 + 2\<^sup>-\<^sup>2\<^sup>4\<close> to 1.
\<close>

lemma fl64_small [simp]:
  "fl64 1 = 1" "fl64 (1 / 16777216) = 1 / 16777216"
  "fl64 (16777217 / 16777216) = 16777217 / 16777216"
  "fl64 (16777215 / 16777216) = 16777215 / 16777216"
proof -
  show "fl64 1 = 1"
    by (rule fl64_exact [where m = 1 and j = 0]) simp_all
  show "fl64 (1 / 16777216) = 1 / 16777216"
    by (rule fl64_exact [where m = 1 and j = "- 24"]) (simp_all add: power_int_minus)
  show "fl64 (16777217 / 16777216) = 16777217 / 16777216"
    by (rule fl64_exact [where m = 16777217 and j = "- 24"]) (simp_all add: power_int_minus)
  show "fl64 (16777215 / 16777216) = 16777215 / 16777216"
    by (rule fl64_exact [where m = 16777215 and j = "- 24"]) (simp_all add: power_int_minus)
qed

lemma fround_small [simp]:
  "fround 1 = 1" "fround (1 / 16777216) = 1 / 16777216"
  "fround (16777215 / 16777216) = 16777215 / 16777216"
proof -
  show "fround 1 = 1"
    by (rule fround_exact [where m = 1 and j = 0]) simp_all
  show "fround (1 / 16777216) = 1 / 16777216"
    by (rule fround_exact [where m = 1 and j = "- 24"]) (simp_all add: power_int_minus)
  show "fround (16777215 / 16777216) = 16777215 / 16777216"
    by (rule fround_exact [where m = 16777215 and j = "- 24"]) (simp_all add: power_int_minus)
qed

lemma fround_tie [simp]: "fround (16777217 / 16777216) = 1"
proof -
  have "fround (16777217 / 16777216) =
      of_int (rne (16777217 / 16777216 / 2 powi (max 0 (- 126) - (int 24 - 1))))
        * 2 powi (max 0 (- 126) - (int 24 - 1))"
    unfolding fround_def by (rule round_fp_eval) simp_all
  moreover have "(16777217 / 16777216 / 2 powi (max 0 (- 126) - (int 24 - 1)) :: real) = 16777217 / 2"
    by (simp add: power_int_minus)
  moreover have "rne (16777217 / 2) = 8388608"
    by (simp add: rne_def Let_def)
  ultimately show ?thesis by (simp add: power_int_minus)
qed

lemma fft_with_ieee_example:
  "fft_with ieee_arith ([1, 1 / 16777216], [0, 0]) = ([1, 16777215 / 16777216], [0, 0])"
proof -
  have e: "evens_with ieee_arith [1, 1 / 16777216] (Suc 0) = [1]"
    "evens_with ieee_arith [0, 0] (Suc 0) = [0]"
    "odds_with ieee_arith [1, 1 / 16777216] (Suc 0) = [1 / 16777216]"
    "odds_with ieee_arith [0, 0] (Suc 0) = [0]"
    by (simp_all add: evens_with_def odds_with_def)
  have "fft_with ieee_arith ([1, 1 / 16777216], [0, 0]) =
      butterfly_with ieee_arith (Suc (Suc 0)) (Suc 0) ([1, 1 / 16777216], [0, 0])
        (fft_with ieee_arith ([1], [0])) (fft_with ieee_arith ([1 / 16777216], [0]))"
    by (subst fft_with_step) (simp_all add: e)
  also have "\<dots> = butterfly_with ieee_arith (Suc (Suc 0)) (Suc 0) ([1, 1 / 16777216], [0, 0])
      ([1], [0]) ([1 / 16777216], [0])"
    by (simp add: fft_with_base)
  also have "\<dots> = ([1, 16777215 / 16777216], [0, 0])"
    by (simp add: butterfly_with_def termReal_with_def termImag_with_def angle_with_def)
  finally show ?thesis .
qed

lemma dft_example: "dft (cplx [1, 1 / 16777216] [0, 0]) 0 = 16777217 / 16777216"
  by (simp add: dft_eq_cis dft_cis_def cplx_def lessThan_Suc complex_eq_iff numeral_2_eq_2)




subsection \<open>In-place updates and the sample array\<close>

lemma length_store [simp]: "length (store a i v h) = length h"
  by (simp add: store_def)

lemma store_same: "a < length h \<Longrightarrow> store a i v h ! a = (h ! a)[i := v]"
  by (simp add: store_def)

lemma store_other: "b \<noteq> a \<Longrightarrow> store a i v h ! b = h ! b"
  by (simp add: store_def)

lemma store_nth:
  "a < length h \<Longrightarrow> store a i v h ! b = (if b = a then (h ! a)[i := v] else h ! b)"
  by (simp add: store_def)

lemma fold_upt_Suc: "fold f [0..<Suc m] h = f m (fold f [0..<m] h)"
  by simp

text \<open>The split loop.\<close>

lemma split_step_frame:
  assumes "eR < length h" "eI < length h" "oR < length h" "oI < length h"
  shows "length (split_step re im eR eI oR oI i h) = length h"
    and "a \<notin> {eR, eI, oR, oI} \<Longrightarrow> split_step re im eR eI oR oI i h ! a = h ! a"
    and "length (split_step re im eR eI oR oI i h ! a) = length (h ! a)"
  using assms by (auto simp: split_step_def Let_def store_nth)

lemma split_step_cells:
  assumes "eR < length h" "eI < length h" "oR < length h" "oI < length h"
    and "distinct [eR, eI, oR, oI]" and "re \<notin> {eR, eI, oR, oI}" and "im \<notin> {eR, eI, oR, oI}"
  shows "split_step re im eR eI oR oI i h ! eR = (h ! eR)[i := h ! re ! (2 * i)]"
    and "split_step re im eR eI oR oI i h ! eI = (h ! eI)[i := h ! im ! (2 * i)]"
    and "split_step re im eR eI oR oI i h ! oR = (h ! oR)[i := h ! re ! (2 * i + 1)]"
    and "split_step re im eR eI oR oI i h ! oI = (h ! oI)[i := h ! im ! (2 * i + 1)]"
  using assms by (auto simp: split_step_def Let_def store_nth)

lemma split_loop:
  assumes "eR < length h" "eI < length h" "oR < length h" "oI < length h"
    and d: "distinct [eR, eI, oR, oI]" and re: "re \<notin> {eR, eI, oR, oI}" and im: "im \<notin> {eR, eI, oR, oI}"
    and len: "length (h ! eR) = half" "length (h ! eI) = half" "length (h ! oR) = half"
      "length (h ! oI) = half"
  shows "m \<le> half \<Longrightarrow>
    length (fold (split_step re im eR eI oR oI) [0..<m] h) = length h
    \<and> (\<forall>a. a \<notin> {eR, eI, oR, oI} \<longrightarrow> fold (split_step re im eR eI oR oI) [0..<m] h ! a = h ! a)
    \<and> (\<forall>a. length (fold (split_step re im eR eI oR oI) [0..<m] h ! a) = length (h ! a))
    \<and> (\<forall>j<m. fold (split_step re im eR eI oR oI) [0..<m] h ! eR ! j = h ! re ! (2 * j)
            \<and> fold (split_step re im eR eI oR oI) [0..<m] h ! eI ! j = h ! im ! (2 * j)
            \<and> fold (split_step re im eR eI oR oI) [0..<m] h ! oR ! j = h ! re ! (2 * j + 1)
            \<and> fold (split_step re im eR eI oR oI) [0..<m] h ! oI ! j = h ! im ! (2 * j + 1))"
proof (induction m)
  case 0
  show ?case by simp
next
  case (Suc m)
  let ?g = "fold (split_step re im eR eI oR oI) [0..<m] h"
  have IH: "length ?g = length h"
    "\<And>a. a \<notin> {eR, eI, oR, oI} \<Longrightarrow> ?g ! a = h ! a"
    "\<And>a. length (?g ! a) = length (h ! a)"
    "\<And>j. j < m \<Longrightarrow> ?g ! eR ! j = h ! re ! (2 * j) \<and> ?g ! eI ! j = h ! im ! (2 * j)
        \<and> ?g ! oR ! j = h ! re ! (2 * j + 1) \<and> ?g ! oI ! j = h ! im ! (2 * j + 1)"
    using Suc by simp_all
  have v: "eR < length ?g" "eI < length ?g" "oR < length ?g" "oI < length ?g"
    using assms(1-4) IH(1) by simp_all
  have src: "?g ! re = h ! re" "?g ! im = h ! im"
    using IH(2) re im by simp_all
  have m: "m < length (?g ! eR)" "m < length (?g ! eI)" "m < length (?g ! oR)" "m < length (?g ! oI)"
    using Suc.prems len IH(3) by simp_all
  note cells = split_step_cells [OF v d re im, where i = m]
  note frame = split_step_frame [OF v, where re = re and im = im and i = m]
  show ?case
    unfolding fold_upt_Suc
  proof (intro conjI allI impI)
    show "length (split_step re im eR eI oR oI m ?g) = length h"
      using frame(1) IH(1) by simp
  next
    fix a assume "a \<notin> {eR, eI, oR, oI}"
    then show "split_step re im eR eI oR oI m ?g ! a = h ! a"
      using frame(2) IH(2) by simp
  next
    fix a show "length (split_step re im eR eI oR oI m ?g ! a) = length (h ! a)"
      using frame(3) IH(3) by simp
  next
    fix j assume j: "j < Suc m"
    show "split_step re im eR eI oR oI m ?g ! eR ! j = h ! re ! (2 * j)"
      using j m IH(4) [of j] by (cases "j = m") (simp_all add: cells src)
    show "split_step re im eR eI oR oI m ?g ! eI ! j = h ! im ! (2 * j)"
      using j m IH(4) [of j] by (cases "j = m") (simp_all add: cells src)
    show "split_step re im eR eI oR oI m ?g ! oR ! j = h ! re ! (2 * j + 1)"
      using j m IH(4) [of j] by (cases "j = m") (simp_all add: cells src)
    show "split_step re im eR eI oR oI m ?g ! oI ! j = h ! im ! (2 * j + 1)"
      using j m IH(4) [of j] by (cases "j = m") (simp_all add: cells src)
  qed
qed

lemma split_loop_result:
  assumes "eR < length h" "eI < length h" "oR < length h" "oI < length h"
    and "distinct [eR, eI, oR, oI]" and "re \<notin> {eR, eI, oR, oI}" and "im \<notin> {eR, eI, oR, oI}"
    and "length (h ! eR) = half" "length (h ! eI) = half" "length (h ! oR) = half"
      "length (h ! oI) = half"
  defines "g \<equiv> fold (split_step re im eR eI oR oI) [0..<half] h"
  shows "length g = length h"
    and "\<And>a. a \<notin> {eR, eI, oR, oI} \<Longrightarrow> g ! a = h ! a"
    and "g ! eR = evens (h ! re) half" and "g ! eI = evens (h ! im) half"
    and "g ! oR = odds (h ! re) half" and "g ! oI = odds (h ! im) half"
proof -
  note L = split_loop [OF assms(1-11), of half, folded g_def, simplified]
  show "length g = length h" using L by blast
  show "\<And>a. a \<notin> {eR, eI, oR, oI} \<Longrightarrow> g ! a = h ! a" using L by blast
  have lens: "length (g ! eR) = half" "length (g ! eI) = half" "length (g ! oR) = half"
    "length (g ! oI) = half"
    using L assms(8-11) by simp_all
  show "g ! eR = evens (h ! re) half"
    using L lens by (intro nth_equalityI) (simp_all add: evens_def)
  show "g ! eI = evens (h ! im) half"
    using L lens by (intro nth_equalityI) (simp_all add: evens_def)
  show "g ! oR = odds (h ! re) half"
    using L lens by (intro nth_equalityI) (simp_all add: odds_def)
  show "g ! oI = odds (h ! im) half"
    using L lens by (intro nth_equalityI) (simp_all add: odds_def)
qed

text \<open>The butterfly loop.\<close>

lemma butterfly_step_frame:
  assumes "re < length h" "im < length h"
  shows "length (butterfly_step n half re im eR eI oR oI k h) = length h"
    and "a \<notin> {re, im} \<Longrightarrow> butterfly_step n half re im eR eI oR oI k h ! a = h ! a"
    and "length (butterfly_step n half re im eR eI oR oI k h ! a) = length (h ! a)"
  using assms by (auto simp: butterfly_step_def Let_def store_nth)

lemma butterfly_step_cells:
  assumes "re < length h" "im < length h" "re \<noteq> im"
    and "eR \<notin> {re, im}" "eI \<notin> {re, im}"
  shows "butterfly_step n half re im eR eI oR oI k h ! re =
      (h ! re)[k := h ! eR ! k + termReal n (h ! oR) (h ! oI) k,
               k + half := h ! eR ! k - termReal n (h ! oR) (h ! oI) k]"
    and "butterfly_step n half re im eR eI oR oI k h ! im =
      (h ! im)[k := h ! eI ! k + termImag n (h ! oR) (h ! oI) k,
               k + half := h ! eI ! k - termImag n (h ! oR) (h ! oI) k]"
  using assms by (auto simp: butterfly_step_def Let_def store_nth)

lemma butterfly_loop:
  assumes v: "re < length h" "im < length h" and ne: "re \<noteq> im"
    and e: "eR \<notin> {re, im}" "eI \<notin> {re, im}" and o: "oR \<notin> {re, im}" "oI \<notin> {re, im}"
    and len: "2 * half \<le> length (h ! re)" "2 * half \<le> length (h ! im)"
  shows "m \<le> half \<Longrightarrow>
    length (fold (butterfly_step n half re im eR eI oR oI) [0..<m] h) = length h
    \<and> (\<forall>a. a \<notin> {re, im} \<longrightarrow> fold (butterfly_step n half re im eR eI oR oI) [0..<m] h ! a = h ! a)
    \<and> (\<forall>a. length (fold (butterfly_step n half re im eR eI oR oI) [0..<m] h ! a) = length (h ! a))
    \<and> (\<forall>j<length (h ! re). fold (butterfly_step n half re im eR eI oR oI) [0..<m] h ! re ! j =
          (if j < m then h ! eR ! j + termReal n (h ! oR) (h ! oI) j
           else if half \<le> j \<and> j < half + m
             then h ! eR ! (j - half) - termReal n (h ! oR) (h ! oI) (j - half)
           else h ! re ! j))
    \<and> (\<forall>j<length (h ! im). fold (butterfly_step n half re im eR eI oR oI) [0..<m] h ! im ! j =
          (if j < m then h ! eI ! j + termImag n (h ! oR) (h ! oI) j
           else if half \<le> j \<and> j < half + m
             then h ! eI ! (j - half) - termImag n (h ! oR) (h ! oI) (j - half)
           else h ! im ! j))"
proof (induction m)
  case 0
  show ?case by simp
next
  case (Suc m)
  let ?g = "fold (butterfly_step n half re im eR eI oR oI) [0..<m] h"
  have IH: "length ?g = length h"
    "\<And>a. a \<notin> {re, im} \<Longrightarrow> ?g ! a = h ! a"
    "\<And>a. length (?g ! a) = length (h ! a)"
    "\<And>j. j < length (h ! re) \<Longrightarrow> ?g ! re ! j =
          (if j < m then h ! eR ! j + termReal n (h ! oR) (h ! oI) j
           else if half \<le> j \<and> j < half + m
             then h ! eR ! (j - half) - termReal n (h ! oR) (h ! oI) (j - half)
           else h ! re ! j)"
    "\<And>j. j < length (h ! im) \<Longrightarrow> ?g ! im ! j =
          (if j < m then h ! eI ! j + termImag n (h ! oR) (h ! oI) j
           else if half \<le> j \<and> j < half + m
             then h ! eI ! (j - half) - termImag n (h ! oR) (h ! oI) (j - half)
           else h ! im ! j)"
    using Suc by simp_all
  have v': "re < length ?g" "im < length ?g"
    using v IH(1) by simp_all
  have src: "?g ! eR = h ! eR" "?g ! eI = h ! eI" "?g ! oR = h ! oR" "?g ! oI = h ! oI"
    using IH(2) e o by simp_all
  have m: "m < half" using Suc.prems by simp
  note cells = butterfly_step_cells [OF v' ne e, where n = n and half = half and oR = oR
      and oI = oI and k = m, unfolded src]
  note frame = butterfly_step_frame [OF v', where n = n and half = half and eR = eR and eI = eI
      and oR = oR and oI = oI and k = m]
  show ?case
    unfolding fold_upt_Suc
  proof (intro conjI allI impI)
    show "length (butterfly_step n half re im eR eI oR oI m ?g) = length h"
      using frame(1) IH(1) by simp
  next
    fix a assume "a \<notin> {re, im}"
    then show "butterfly_step n half re im eR eI oR oI m ?g ! a = h ! a"
      using frame(2) IH(2) by simp
  next
    fix a show "length (butterfly_step n half re im eR eI oR oI m ?g ! a) = length (h ! a)"
      using frame(3) IH(3) by simp
  next
    fix j assume j: "j < length (h ! re)"
    show "butterfly_step n half re im eR eI oR oI m ?g ! re ! j =
          (if j < Suc m then h ! eR ! j + termReal n (h ! oR) (h ! oI) j
           else if half \<le> j \<and> j < half + Suc m
             then h ! eR ! (j - half) - termReal n (h ! oR) (h ! oI) (j - half)
           else h ! re ! j)"
      unfolding cells using j m len IH(3) [of re] IH(4) [OF j]
      by (auto simp: nth_list_update less_Suc_eq)
  next
    fix j assume j: "j < length (h ! im)"
    show "butterfly_step n half re im eR eI oR oI m ?g ! im ! j =
          (if j < Suc m then h ! eI ! j + termImag n (h ! oR) (h ! oI) j
           else if half \<le> j \<and> j < half + Suc m
             then h ! eI ! (j - half) - termImag n (h ! oR) (h ! oI) (j - half)
           else h ! im ! j)"
      unfolding cells using j m len IH(3) [of im] IH(5) [OF j]
      by (auto simp: nth_list_update less_Suc_eq)
  qed
qed

lemma butterfly_loop_result:
  fixes n :: nat
  assumes "re < length h" "im < length h" and "re \<noteq> im"
    and "eR \<notin> {re, im}" "eI \<notin> {re, im}" and "oR \<notin> {re, im}" "oI \<notin> {re, im}"
    and "2 * half \<le> length (h ! re)" "2 * half \<le> length (h ! im)"
  defines "g \<equiv> fold (butterfly_step n half re im eR eI oR oI) [0..<half] h"
  shows "length g = length h"
    and "\<And>a. a \<notin> {re, im} \<Longrightarrow> g ! a = h ! a"
    and "g ! re = fst (butterfly n half (h ! re, h ! im) (h ! eR, h ! eI) (h ! oR, h ! oI))"
    and "g ! im = snd (butterfly n half (h ! re, h ! im) (h ! eR, h ! eI) (h ! oR, h ! oI))"
proof -
  note L = butterfly_loop [OF assms(1-9), where m = half and n = n, folded g_def, simplified]
  show "length g = length h" using L by blast
  show "\<And>a. a \<notin> {re, im} \<Longrightarrow> g ! a = h ! a" using L by blast
  have lens: "length (g ! re) = length (h ! re)" "length (g ! im) = length (h ! im)"
    using L by simp_all
  have re: "g ! re ! j = (if j < half then h ! eR ! j + termReal n (h ! oR) (h ! oI) j
           else if j < half + half
             then h ! eR ! (j - half) - termReal n (h ! oR) (h ! oI) (j - half)
           else h ! re ! j)" if "j < length (h ! re)" for j
    using L that by auto
  have im: "g ! im ! j = (if j < half then h ! eI ! j + termImag n (h ! oR) (h ! oI) j
           else if j < half + half
             then h ! eI ! (j - half) - termImag n (h ! oR) (h ! oI) (j - half)
           else h ! im ! j)" if "j < length (h ! im)" for j
    using L that by auto
  show "g ! re = fst (butterfly n half (h ! re, h ! im) (h ! eR, h ! eI) (h ! oR, h ! oI))"
    using assms(8) lens(1)
    by (intro nth_equalityI) (auto simp: butterfly_def re nth_append)
  show "g ! im = snd (butterfly n half (h ! re, h ! im) (h ! eR, h ! eI) (h ! oR, h ! oI))"
    using assms(9) lens(2)
    by (intro nth_equalityI) (auto simp: butterfly_def im nth_append)
qed

lemma fft_h_unfold:
  assumes "\<not> n \<le> 1"
  defines "half \<equiv> n div 2"
  defines "z \<equiv> replicate half (0 :: real)"
  shows "fft_h n re im h =
    fold (butterfly_step n half re im (length h) (length h + 1) (length h + 2) (length h + 3))
      [0..<half]
      (fft_h half (length h + 2) (length h + 3)
        (fft_h half (length h) (length h + 1)
          (fold (split_step re im (length h) (length h + 1) (length h + 2) (length h + 3))
            [0..<half] (h @ [z, z, z, z]))))"
  using assms(1)
  by (subst fft_h.simps) (simp add: new_array_def Let_def half_def z_def eval_nat_numeral)

lemma fft_h_refines:
  "re < length h \<Longrightarrow> im < length h \<Longrightarrow> re \<noteq> im \<Longrightarrow> length (h ! re) = n
    \<Longrightarrow> length (h ! im) = n \<Longrightarrow>
   length h \<le> length (fft_h n re im h)
   \<and> (\<forall>a<length h. a \<notin> {re, im} \<longrightarrow> fft_h n re im h ! a = h ! a)
   \<and> fft_h n re im h ! re = fst (fft (h ! re, h ! im))
   \<and> fft_h n re im h ! im = snd (fft (h ! re, h ! im))"
proof (induction n arbitrary: re im h rule: less_induct)
  case (less n)
  show ?case
  proof (cases "n \<le> 1")
    case True
    then have "fft_h n re im h = h" by (subst fft_h.simps) simp
    moreover have "fft (h ! re, h ! im) = (h ! re, h ! im)"
      using True less.prems by (simp add: fft_base)
    ultimately show ?thesis by simp
  next
    case False
    define half where "half = n div 2"
    define z where "z = replicate half (0 :: real)"
    define L where "L = length h"
    define h4 where "h4 = h @ [z, z, z, z]"
    define h5 where "h5 = fold (split_step re im L (L + 1) (L + 2) (L + 3)) [0..<half] h4"
    define h6 where "h6 = fft_h half L (L + 1) h5"
    define h7 where "h7 = fft_h half (L + 2) (L + 3) h6"
    define g where "g = fold (butterfly_step n half re im L (L + 1) (L + 2) (L + 3)) [0..<half] h7"
    have g: "fft_h n re im h = g"
      unfolding g_def h7_def h6_def h5_def h4_def L_def z_def half_def
      using False by (rule fft_h_unfold)
    have half: "half < n" "2 * half \<le> n" using False by (simp_all add: half_def)
    have re: "re < L" and im: "im < L" using less.prems by (simp_all add: L_def)
    \<comment> \<open>the four fresh arrays\<close>
    have l4: "length h4 = L + 4" by (simp add: h4_def L_def)
    have old4: "h4 ! a = h ! a" if "a < L" for a
      using that by (simp add: h4_def L_def nth_append)
    have new4: "h4 ! L = z" "h4 ! (L + 1) = z" "h4 ! (L + 2) = z" "h4 ! (L + 3) = z"
      by (simp_all add: h4_def L_def nth_append)
    \<comment> \<open>the split loop\<close>
    have p: "L < length h4" "L + 1 < length h4" "L + 2 < length h4" "L + 3 < length h4"
      "distinct [L, L + 1, L + 2, L + 3]"
      "re \<notin> {L, L + 1, L + 2, L + 3}" "im \<notin> {L, L + 1, L + 2, L + 3}"
      "length (h4 ! L) = half" "length (h4 ! (L + 1)) = half" "length (h4 ! (L + 2)) = half"
      "length (h4 ! (L + 3)) = half"
      using re im new4 by (simp_all add: l4 z_def)
    note sp = split_loop_result [OF p, folded h5_def]
    have l5: "length h5 = L + 4" using sp(1) l4 by simp
    have old5: "h5 ! a = h ! a" if "a < L" for a
      using that sp(2) [of a] old4 [of a] by simp
    \<comment> \<open>the two recursive calls\<close>
    have r6: "length h5 \<le> length h6"
      "\<And>a. a < length h5 \<Longrightarrow> a \<notin> {L, L + 1} \<Longrightarrow> h6 ! a = h5 ! a"
      "h6 ! L = fst (fft (h5 ! L, h5 ! (L + 1)))"
      "h6 ! (L + 1) = snd (fft (h5 ! L, h5 ! (L + 1)))"
      unfolding h6_def
      using less.IH [OF half(1), of L h5 "L + 1"] sp(3,4) l5
      by (simp_all add: length_evens)
    have l6: "L + 4 \<le> length h6" using r6(1) l5 by simp
    have r7: "length h6 \<le> length h7"
      "\<And>a. a < length h6 \<Longrightarrow> a \<notin> {L + 2, L + 3} \<Longrightarrow> h7 ! a = h6 ! a"
      "h7 ! (L + 2) = fst (fft (h6 ! (L + 2), h6 ! (L + 3)))"
      "h7 ! (L + 3) = snd (fft (h6 ! (L + 2), h6 ! (L + 3)))"
      unfolding h7_def
      using less.IH [OF half(1), of "L + 2" h6 "L + 3"] l6 l5 sp(5,6)
        r6(2) [of "L + 2"] r6(2) [of "L + 3"]
      by (simp_all add: length_odds)
    have l7: "L + 4 \<le> length h7" using r7(1) l6 by simp
    have old7: "h7 ! a = h ! a" if "a < L" for a
      using that r7(2) [of a] r6(2) [of a] old5 [of a] l5 l6 by simp
    have ev7: "h7 ! L = fst (fft (evens (h ! re) half, evens (h ! im) half))"
      "h7 ! (L + 1) = snd (fft (evens (h ! re) half, evens (h ! im) half))"
      using r7(2) [of L] r7(2) [of "L + 1"] l6 r6(3,4) sp(3,4) old4 re im by simp_all
    have od7: "h7 ! (L + 2) = fst (fft (odds (h ! re) half, odds (h ! im) half))"
      "h7 ! (L + 3) = snd (fft (odds (h ! re) half, odds (h ! im) half))"
      using r7(3,4) r6(2) [of "L + 2"] r6(2) [of "L + 3"] l5 sp(5,6) old4 re im by simp_all
    \<comment> \<open>the butterfly loop\<close>
    have q: "re < length h7" "im < length h7" "re \<noteq> im"
      "L \<notin> {re, im}" "L + 1 \<notin> {re, im}" "L + 2 \<notin> {re, im}" "L + 3 \<notin> {re, im}"
      "2 * half \<le> length (h7 ! re)" "2 * half \<le> length (h7 ! im)"
      using re im l7 less.prems half(2) by (simp_all add: old7)
    note bf = butterfly_loop_result [OF q, where n = n, folded g_def]
    have F: "fft (h ! re, h ! im) =
        butterfly n half (h ! re, h ! im)
          (fft (evens (h ! re) half, evens (h ! im) half))
          (fft (odds (h ! re) half, odds (h ! im) half))"
      using False less.prems by (subst fft_step) (simp_all add: half_def)
    have res: "g ! re = fst (fft (h ! re, h ! im))" "g ! im = snd (fft (h ! re, h ! im))"
      unfolding bf(3,4) old7 [OF re] old7 [OF im] ev7 od7 prod.collapse F by (rule refl)+
    have "length h \<le> length g"
      using bf(1) l7 by (simp add: L_def)
    moreover have "g ! a = h ! a" if "a < length h" "a \<notin> {re, im}" for a
      using that bf(2) [of a] old7 [of a] by (simp add: L_def)
    ultimately show ?thesis
      unfolding g using res by blast
  qed
qed

text \<open>The window loop and the magnitude loop.\<close>

lemma window_step_effect:
  assumes "re < length h"
  shows "length (window_step re n i h) = length h"
    and "a \<noteq> re \<Longrightarrow> window_step re n i h ! a = h ! a"
    and "window_step re n i h ! re =
      (h ! re)[i := h ! re ! i * 0.5 * (1 - cos ((2 * pi * real i) / (real n - 1)))]"
  using assms by (simp_all add: window_step_def store_nth)

lemma mag_step_effect:
  assumes "mag < length h"
  shows "length (mag_step mag re imag i h) = length h"
    and "a \<noteq> mag \<Longrightarrow> mag_step mag re imag i h ! a = h ! a"
    and "mag_step mag re imag i h ! mag =
      (h ! mag)[i := sqrt (h ! re ! i * h ! re ! i + h ! imag ! i * h ! imag ! i)]"
  using assms by (simp_all add: mag_step_def store_nth)

lemma window_loop:
  assumes "re < length h"
  shows "m \<le> length (h ! re) \<Longrightarrow>
    length (fold (window_step re n) [0..<m] h) = length h
    \<and> (\<forall>a. a \<noteq> re \<longrightarrow> fold (window_step re n) [0..<m] h ! a = h ! a)
    \<and> length (fold (window_step re n) [0..<m] h ! re) = length (h ! re)
    \<and> (\<forall>j<length (h ! re). fold (window_step re n) [0..<m] h ! re ! j =
          (if j < m then h ! re ! j * 0.5 * (1 - cos ((2 * pi * real j) / (real n - 1)))
           else h ! re ! j))"
proof (induction m)
  case 0
  show ?case by simp
next
  case (Suc m)
  let ?g = "fold (window_step re n) [0..<m] h"
  have IH: "length ?g = length h" "\<And>a. a \<noteq> re \<Longrightarrow> ?g ! a = h ! a"
    "length (?g ! re) = length (h ! re)"
    "\<And>j. j < length (h ! re) \<Longrightarrow> ?g ! re ! j =
          (if j < m then h ! re ! j * 0.5 * (1 - cos ((2 * pi * real j) / (real n - 1)))
           else h ! re ! j)"
    using Suc by simp_all
  have v: "re < length ?g" using assms IH(1) by simp
  have m: "m < length (h ! re)" using Suc.prems by simp
  note st = window_step_effect [OF v, where n = n and i = m]
  show ?case
    unfolding fold_upt_Suc
    using m IH st(1,2) by (auto simp: st(3) nth_list_update less_Suc_eq)
qed

lemma window_loop_result:
  assumes "re < length h"
  defines "g \<equiv> fold (window_step re (length (h ! re))) [0..<length (h ! re)] h"
  shows "length g = length h" and "\<And>a. a \<noteq> re \<Longrightarrow> g ! a = h ! a"
    and "g ! re = hanning_window (h ! re)"
proof -
  note L = window_loop [OF assms(1), where m = "length (h ! re)" and n = "length (h ! re)",
      folded g_def, simplified]
  show "length g = length h" using L by blast
  show "\<And>a. a \<noteq> re \<Longrightarrow> g ! a = h ! a" using L by blast
  show "g ! re = hanning_window (h ! re)"
    using L by (intro nth_equalityI) (simp_all add: hanning_window_def Let_def)
qed

lemma mag_loop:
  assumes "mag < length h" "mag \<noteq> re" "mag \<noteq> imag"
  shows "m \<le> length (h ! mag) \<Longrightarrow>
    length (fold (mag_step mag re imag) [0..<m] h) = length h
    \<and> (\<forall>a. a \<noteq> mag \<longrightarrow> fold (mag_step mag re imag) [0..<m] h ! a = h ! a)
    \<and> length (fold (mag_step mag re imag) [0..<m] h ! mag) = length (h ! mag)
    \<and> (\<forall>j<m. fold (mag_step mag re imag) [0..<m] h ! mag ! j =
          sqrt (h ! re ! j * h ! re ! j + h ! imag ! j * h ! imag ! j))"
proof (induction m)
  case 0
  show ?case by simp
next
  case (Suc m)
  let ?g = "fold (mag_step mag re imag) [0..<m] h"
  have IH: "length ?g = length h" "\<And>a. a \<noteq> mag \<Longrightarrow> ?g ! a = h ! a"
    "length (?g ! mag) = length (h ! mag)"
    "\<And>j. j < m \<Longrightarrow> ?g ! mag ! j = sqrt (h ! re ! j * h ! re ! j + h ! imag ! j * h ! imag ! j)"
    using Suc by simp_all
  have v: "mag < length ?g" using assms IH(1) by simp
  have m: "m < length (h ! mag)" using Suc.prems by simp
  have src: "?g ! re = h ! re" "?g ! imag = h ! imag"
    using IH(2) assms by simp_all
  note st = mag_step_effect [OF v, where re = re and imag = imag and i = m, unfolded src]
  show ?case
    unfolding fold_upt_Suc
    using m IH st(1,2) by (auto simp: st(3) nth_list_update less_Suc_eq)
qed

lemma mag_loop_result:
  assumes "mag < length h" "mag \<noteq> re" "mag \<noteq> imag" "length (h ! mag) = n div 2"
  defines "g \<equiv> fold (mag_step mag re imag) [0..<n div 2] h"
  shows "length g = length h" and "\<And>a. a \<noteq> mag \<Longrightarrow> g ! a = h ! a"
    and "g ! mag = magnitudes n (h ! re, h ! imag)"
proof -
  note L = mag_loop [OF assms(1-3), where m = "n div 2", folded g_def, unfolded assms(4),
      simplified]
  show "length g = length h" using L by blast
  show "\<And>a. a \<noteq> mag \<Longrightarrow> g ! a = h ! a" using L by blast
  show "g ! mag = magnitudes n (h ! re, h ! imag)"
    using L by (intro nth_equalityI) (simp_all add: magnitudes_def)
qed

lemma getMagnitudeSpectrum_h_unfold:
  "getMagnitudeSpectrum_h re h =
     (length (fft_h (length (h ! re)) re (length h)
         (fold (window_step re (length (h ! re))) [0..<length (h ! re)]
            (h @ [replicate (length (h ! re)) 0]))),
      fold (mag_step (length (fft_h (length (h ! re)) re (length h)
         (fold (window_step re (length (h ! re))) [0..<length (h ! re)]
            (h @ [replicate (length (h ! re)) 0])))) re (length h))
        [0..<length (h ! re) div 2]
        (fft_h (length (h ! re)) re (length h)
           (fold (window_step re (length (h ! re))) [0..<length (h ! re)]
              (h @ [replicate (length (h ! re)) 0]))
         @ [replicate (length (h ! re) div 2) 0]))"
  by (simp add: getMagnitudeSpectrum_h_def new_array_def Let_def)

lemma getMagnitudeSpectrum_h_effect:
  assumes re: "re < length h"
  shows "length h < fst (getMagnitudeSpectrum_h re h)"
    and "fst (getMagnitudeSpectrum_h re h) < length (snd (getMagnitudeSpectrum_h re h))"
    and "snd (getMagnitudeSpectrum_h re h) ! re =
      fst (fft (hanning_window (h ! re), replicate (length (h ! re)) 0))"
    and "\<And>a. a < length h \<Longrightarrow> a \<noteq> re \<Longrightarrow> snd (getMagnitudeSpectrum_h re h) ! a = h ! a"
    and "snd (getMagnitudeSpectrum_h re h) ! fst (getMagnitudeSpectrum_h re h) =
      getMagnitudeSpectrum (h ! re)"
proof -
  define n where "n = length (h ! re)"
  define L where "L = length h"
  define h1 where "h1 = h @ [replicate n (0 :: real)]"
  define h2 where "h2 = fold (window_step re n) [0..<n] h1"
  define h3 where "h3 = fft_h n re L h2"
  define mag where "mag = length h3"
  define h4 where "h4 = h3 @ [replicate (n div 2) (0 :: real)]"
  define g where "g = fold (mag_step mag re L) [0..<n div 2] h4"
  have res: "getMagnitudeSpectrum_h re h = (mag, g)"
    unfolding g_def h4_def mag_def h3_def h2_def h1_def L_def n_def
    by (rule getMagnitudeSpectrum_h_unfold)
  have reL: "re < L" using re by (simp add: L_def)
  have l1: "length h1 = L + 1" by (simp add: h1_def L_def)
  have old1: "h1 ! a = h ! a" if "a < L" for a
    using that by (simp add: h1_def L_def nth_append)
  have new1: "h1 ! L = replicate n 0" by (simp add: h1_def L_def)
  have n1: "length (h1 ! re) = n" using old1 [OF reL] by (simp add: n_def)
  have re1: "re < length h1" using reL l1 by simp
  note w = window_loop_result [OF re1, unfolded n1, folded h2_def]
  have l2: "length h2 = L + 1" using w(1) l1 by simp
  have re2: "h2 ! re = hanning_window (h ! re)" using w(3) old1 [OF reL] by simp
  have im2: "h2 ! L = replicate n 0" using w(2) [of L] reL new1 by simp
  have p: "re < length h2" "L < length h2" "re \<noteq> L" "length (h2 ! re) = n"
    "length (h2 ! L) = n"
    using reL l2 re2 im2 by (simp_all add: hanning_window_def Let_def n_def)
  note f = fft_h_refines [OF p, folded h3_def, unfolded re2 im2]
  have l3: "L + 1 \<le> mag" using f l2 by (simp add: mag_def)
  have old3: "h3 ! a = h ! a" if "a < L" "a \<noteq> re" for a
    using that f w(2) [of a] old1 [of a] l2 by simp
  have l4: "length h4 = mag + 1" by (simp add: h4_def mag_def)
  have old4: "h4 ! a = h3 ! a" if "a < mag" for a
    using that by (simp add: h4_def mag_def nth_append)
  have q: "mag < length h4" "mag \<noteq> re" "mag \<noteq> L" "length (h4 ! mag) = n div 2"
    using l3 reL by (simp_all add: h4_def mag_def)
  note m = mag_loop_result [OF q, folded g_def]
  have re4: "h4 ! re = fst (fft (hanning_window (h ! re), replicate n 0))"
    and im4: "h4 ! L = snd (fft (hanning_window (h ! re), replicate n 0))"
    using f old4 [of re] old4 [of L] l3 reL by simp_all
  show "length h < fst (getMagnitudeSpectrum_h re h)"
    using l3 by (simp add: res L_def)
  show "fst (getMagnitudeSpectrum_h re h) < length (snd (getMagnitudeSpectrum_h re h))"
    using m(1) l4 by (simp add: res)
  show "snd (getMagnitudeSpectrum_h re h) ! re =
      fst (fft (hanning_window (h ! re), replicate (length (h ! re)) 0))"
    using m(2) [of re] q(2) re4 by (simp add: res n_def)
  show "snd (getMagnitudeSpectrum_h re h) ! a = h ! a" if "a < length h" "a \<noteq> re" for a
    using that m(2) [of a] old4 [of a] old3 [of a] l3 by (simp add: res L_def)
  show "snd (getMagnitudeSpectrum_h re h) ! fst (getMagnitudeSpectrum_h re h) =
      getMagnitudeSpectrum (h ! re)"
    unfolding res fst_conv snd_conv m(3) re4 im4 prod.collapse
    by (simp add: getMagnitudeSpectrum_def Let_def n_def)
qed

lemma process_frame_h_effect:
  assumes data: "data < length h"
  shows "fst (process_frame_h B data i (st, h)) =
      process_frame B (slice (h ! data) i (i + FFT_SIZE)) st"
    and "length h \<le> length (snd (process_frame_h B data i (st, h)))"
    and "\<And>a. a < length h \<Longrightarrow> snd (process_frame_h B data i (st, h)) ! a = h ! a"
proof -
  define chunk where "chunk = slice (h ! data) i (i + FFT_SIZE)"
  define L where "L = length h"
  define h1 where "h1 = h @ [chunk]"
  define h2 where "h2 = h1 @ [chunk]"
  have c1: "h1 ! L = chunk" by (simp add: h1_def L_def)
  have old1: "h1 ! a = h ! a" if "a < L" for a
    using that by (simp add: h1_def L_def nth_append)
  have l2: "length h2 = L + 2" by (simp add: h2_def h1_def L_def)
  have c2: "h2 ! (L + 1) = chunk" by (simp add: h2_def h1_def L_def nth_append)
  have old2: "h2 ! a = h ! a" if "a < L" for a
    using that by (simp add: h2_def h1_def L_def nth_append)
  have copy: "L + 1 < length h2" using l2 by simp
  note gm = getMagnitudeSpectrum_h_effect [OF copy, unfolded c2]
  have unf: "process_frame_h B data i (st, h) =
      (if rms_of chunk > 0.01
       then (spectral_update B
               (snd (getMagnitudeSpectrum_h (L + 1) h2) ! fst (getMagnitudeSpectrum_h (L + 1) h2))
               (rms_update (rms_of chunk) st),
             snd (getMagnitudeSpectrum_h (L + 1) h2))
       else (rms_update (rms_of chunk) st, h1))"
    by (simp add: process_frame_h_def new_array_def Let_def chunk_def h1_def h2_def L_def
        split: prod.splits)
  show "fst (process_frame_h B data i (st, h)) =
      process_frame B (slice (h ! data) i (i + FFT_SIZE)) st"
    unfolding unf gm(5) by (simp add: process_frame_def Let_def chunk_def)
  show "length h \<le> length (snd (process_frame_h B data i (st, h)))"
    unfolding unf using gm(1,2) l2 by (simp add: h1_def L_def)
  show "snd (process_frame_h B data i (st, h)) ! a = h ! a" if "a < length h" for a
    unfolding unf using that gm(4) [of a] l2 old2 [of a] old1 [of a] by (simp add: L_def)
qed

lemma frame_loop_h_effect:
  "data < length h \<Longrightarrow> len = length (h ! data) \<Longrightarrow>
     fst (frame_loop_h data len B i (st, h)) = frame_loop (h ! data) B i st
     \<and> snd (frame_loop_h data len B i (st, h)) ! data = h ! data
     \<and> length h \<le> length (snd (frame_loop_h data len B i (st, h)))"
proof (induction "len - i" arbitrary: i st h rule: less_induct)
  case less
  show ?case
  proof (cases "int i < int len - int FFT_SIZE")
    case False
    then show ?thesis
      using less.prems
      by (subst (1 2 3) frame_loop_h.simps, subst frame_loop.simps) simp
  next
    case True
    obtain st' h' where p: "process_frame_h B data i (st, h) = (st', h')"
      by (cases "process_frame_h B data i (st, h)")
    note e = process_frame_h_effect [OF less.prems(1), where B = B and i = i and st = st,
        unfolded p fst_conv snd_conv]
    have d': "data < length h'" and l': "len = length (h' ! data)" and same: "h' ! data = h ! data"
      using e(2) e(3) [OF less.prems(1)] less.prems by simp_all
    have dec: "len - (i + HOP_SIZE) < len - i"
      using True by (simp add: HOP_SIZE_def)
    note IH = less.hyps [OF dec d' l', where st = st']
    have unf: "frame_loop_h data len B i (st, h) = frame_loop_h data len B (i + HOP_SIZE) (st', h')"
      using True by (subst frame_loop_h.simps) (simp add: p)
    have unf': "frame_loop (h ! data) B i st = frame_loop (h ! data) B (i + HOP_SIZE) st'"
      using True less.prems(2) e(1) by (subst frame_loop.simps) simp
    show ?thesis
      unfolding unf unf' using IH e(2) by (simp add: same)
  qed
qed

lemma hanning_window_two: "hanning_window [a, b] = [0, 0]"
  by (simp add: hanning_window_def upt_rec)

lemma analyzeAudioSignal_h_eq:
  "analyzeAudioSignal_h input sampleRate = analyzeAudioSignal input sampleRate"
proof -
  let ?data = "normalizeBuffer input"
  let ?B = "sampleRate / real FFT_SIZE"
  let ?r = "frame_loop_h 0 (length ?data) ?B 0 (init_acc, [?data])"
  have e: "fst ?r = frame_loop ?data ?B 0 init_acc" "snd ?r ! 0 = ?data"
    using frame_loop_h_effect [where data = 0 and h = "[?data]" and len = "length ?data"
        and B = ?B and i = 0 and st = init_acc]
    by simp_all
  have "analyzeAudioSignal_h input sampleRate =
      aggregate_and_classify (fst ?r) (hasDigitalSilence_of (snd ?r ! 0))"
    by (simp add: analyzeAudioSignal_h_def new_array_def Let_def split: prod.splits)
  then show ?thesis
    unfolding e by (simp add: analyzeAudioSignal_def frames_of_def Let_def)
qed

text \<open>
  C10. \<open>getMagnitudeSpectrum\<close> overwrites the array it is given (afterwards the array holds
  the real part of the transform of the windowed frame) and changes no other array that
  existed before the call. The loop body passes it a fresh copy of the sliced chunk, so
  one iteration, and the whole frame loop, leave the array of normalized samples as it
  was, while computing the same accumulators as the loop over an immutable signal. Hence
  the array the zero-run scan reads after the loop is the normalizer's output, and the
  analysis over the store returns the result of \<open>analyzeAudioSignal\<close>.
\<close>

theorem frame_processing_leaves_samples:
  "(re < length h \<longrightarrow>
      snd (getMagnitudeSpectrum_h re h) ! re =
        fst (fft (hanning_window (h ! re), replicate (length (h ! re)) 0))
      \<and> (\<forall>a<length h. a \<noteq> re \<longrightarrow> snd (getMagnitudeSpectrum_h re h) ! a = h ! a))
   \<and> (data < length h \<longrightarrow>
      snd (process_frame_h B data i (st, h)) ! data = h ! data
      \<and> snd (frame_loop_h data (length (h ! data)) B i (st, h)) ! data = h ! data
      \<and> fst (frame_loop_h data (length (h ! data)) B i (st, h)) = frame_loop (h ! data) B i st)
   \<and> snd (frame_loop_h 0 (length (normalizeBuffer input)) B 0
            (init_acc, snd (new_array (normalizeBuffer input) []))) ! 0 = normalizeBuffer input
   \<and> analyzeAudioSignal_h input sampleRate = analyzeAudioSignal input sampleRate"
proof -
  have "snd (frame_loop_h 0 (length (normalizeBuffer input)) B 0
            (init_acc, snd (new_array (normalizeBuffer input) []))) ! 0 = normalizeBuffer input"
    using frame_loop_h_effect [where data = 0 and h = "[normalizeBuffer input]"
        and len = "length (normalizeBuffer input)" and B = B and i = 0 and st = init_acc]
    by (simp add: new_array_def)
  then show ?thesis
    using getMagnitudeSpectrum_h_effect(3,4) [of re h]
      process_frame_h_effect(3) [where data = data and h = h and B = B and i = i and st = st]
      frame_loop_h_effect [where data = data and h = h and len = "length (h ! data)" and B = B
        and i = i and st = st]
      analyzeAudioSignal_h_eq [of input sampleRate]
    by blast
qed

theorem frame_processing_leaves_samples_witness:
  "(0 :: nat) < length [[1, 1 :: real], [5, 6, 7]]
   \<and> snd (getMagnitudeSpectrum_h 0 [[1, 1], [5, 6, 7]]) ! 0 = [0, 0]
   \<and> snd (getMagnitudeSpectrum_h 0 [[1, 1], [5, 6, 7]]) ! 1 = [5, 6, 7]
   \<and> snd (process_frame_h 1 0 0 (init_acc, [[1, 1], [5, 6, 7]])) ! 0 = [1, 1]
   \<and> snd (frame_loop_h 0 (length [1, 1 :: real]) 1 0 (init_acc, [[1, 1], [5, 6, 7]])) ! 0 = [1, 1]"
proof -
  note t = frame_processing_leaves_samples [where re = 0 and h = "[[1, 1], [5, 6, 7]]"
      and data = 0 and B = 1 and i = 0 and st = init_acc and input = "[1]" and sampleRate = 1]
  have v: "(0 :: nat) < length [[1, 1 :: real], [5, 6, 7]]" by simp
  have a: "snd (getMagnitudeSpectrum_h 0 [[1, 1], [5, 6, 7]]) ! 0 = [0, 0]"
    using t by (simp add: hanning_window_two fft_two)
  have "\<forall>a<length [[1, 1 :: real], [5, 6, 7]]. a \<noteq> 0 \<longrightarrow>
      snd (getMagnitudeSpectrum_h 0 [[1, 1], [5, 6, 7]]) ! a = [[1, 1], [5, 6, 7]] ! a"
    using t v by blast
  then have b: "snd (getMagnitudeSpectrum_h 0 [[1, 1], [5, 6, 7]]) ! 1 = [5, 6, 7]"
    by simp
  have c: "snd (process_frame_h 1 0 0 (init_acc, [[1, 1], [5, 6, 7]])) ! 0 = [1, 1]"
    using t by simp
  have d: "snd (frame_loop_h 0 (length [1, 1 :: real]) 1 0 (init_acc, [[1, 1], [5, 6, 7]])) ! 0
      = [1, 1]"
    using t by simp
  show ?thesis
    using v a b c d by blast
qed

end
